theory Spec2Isabelle
  imports Main "HOL-Library.Sublist"
begin

section \<open>Crash report extraction: pkg/report/report.go\<close>

text \<open>
  A shallow embedding of the generic part of package \<open>report\<close>: \<open>NewReporter\<close>,
  \<open>containsCrash\<close>, \<open>matchOops\<close>, \<open>extractDescription\<close> and \<open>replace\<close>.

  A Go \<open>[]byte\<close> that is only read is a list of bytes, and a Go \<open>string\<close> is the list
  of its bytes (\<open>len\<close> counts bytes). Go's \<open>int\<close> is modelled by \<open>int\<close>: every integer
  the functions compute is an offset into, or a length of, a buffer held in memory.
  A run-time panic (an index or slice bound out of range, the explicit \<open>panic\<close> call) is
  the value \<open>Inl Panic\<close>.
\<close>

subsection \<open>Bytes, slices and the library functions of package bytes\<close>

type_synonym byte = char
type_synonym bytes = "byte list"

datatype panic = Panic

text \<open>The byte \<open>'\n'\<close> (10) and the byte \<open>'\r'\<close> (13).\<close>

definition NL :: byte where
  "NL = CHR 0x0A"

definition CR :: byte where
  "CR = CHR 0x0D"

text \<open>
  The slice expressions \<open>s[lo:hi]\<close> and \<open>s[lo:]\<close> on a buffer whose capacity is its
  length: Go panics unless \<open>0 \<le> lo \<le> hi \<le> len(s)\<close>.
\<close>

definition slice :: "'a list \<Rightarrow> int \<Rightarrow> int \<Rightarrow> panic + 'a list" where
  "slice s lo hi =
     (if 0 \<le> lo \<and> lo \<le> hi \<and> hi \<le> int (length s)
      then Inr (take (nat (hi - lo)) (drop (nat lo) s))
      else Inl Panic)"

definition slice_from :: "'a list \<Rightarrow> int \<Rightarrow> panic + 'a list" where
  "slice_from s lo = slice s lo (int (length s))"

text \<open>
  \<open>bytes.IndexByte(s, c)\<close>: the index of the first \<open>c\<close> in \<open>s\<close>, or \<open>-1\<close>.
  \<open>bytes.Index(s, sep)\<close>: the index of the first occurrence of \<open>sep\<close> in \<open>s\<close>, or \<open>-1\<close>;
  the empty \<open>sep\<close> occurs at index 0.
\<close>

fun IndexByte :: "bytes \<Rightarrow> byte \<Rightarrow> int" where
  "IndexByte [] c = -1"
| "IndexByte (x # xs) c =
     (if x = c then 0
      else (let r = IndexByte xs c in if r = -1 then -1 else r + 1))"

fun Index :: "bytes \<Rightarrow> bytes \<Rightarrow> int" where
  "Index [] sep = (if sep = [] then 0 else -1)"
| "Index (x # xs) sep =
     (if prefix sep (x # xs) then 0
      else (let r = Index xs sep in if r = -1 then -1 else r + 1))"

subsection \<open>Compiled patterns and templates\<close>

text \<open>
  A \<open>*regexp.Regexp\<close> is a value of Go's library; the functions here only call two of
  its methods, so a compiled pattern is modelled by what these two methods return on
  each input: \<open>Match\<close>, and \<open>FindSubmatchIndex\<close> with \<open>nil\<close> as \<open>None\<close>. The index
  list of a match holds the start and end of the whole match followed by the start and
  end of each capture group (\<open>-1\<close> twice for a group that took no part in the match).
  Patterns are the non-nil pointers that \<open>compile\<close> returns.
\<close>

record regexp =
  Match :: "bytes \<Rightarrow> bool"
  FindSubmatchIndex :: "bytes \<Rightarrow> int list option"

text \<open>The struct \<open>oopsFormat\<close>, and the crash signature struct of the source, here
  \<open>oops_sig\<close>, whose Go name is a command of Isabelle (\<open>report\<close> is \<open>nil\<close> in most formats).\<close>

record oopsFormat =
  title :: regexp
  report :: "regexp option"
  fmt :: string
  noStackTrace :: bool
  corrupted :: bool

record oops_sig =
  header :: bytes
  formats :: "oopsFormat list"
  suppressions :: "regexp list"

subsection \<open>extractDescription\<close>

text \<open>
  \<open>fmt.Sprintf\<close> is a function of Go's library; it is a parameter \<open>sprintf\<close> of the
  model, applied to the template and to the capture strings. The result \<open>format\<close> is
  the zero value of \<open>oopsFormat\<close> until a format is selected; the zero value has a nil
  \<open>title\<close>, which no format of a signature has, and is \<open>None\<close> here.
\<close>

type_synonym sprintf = "string \<Rightarrow> string list \<Rightarrow> string"

text \<open>
  The loop that builds \<open>args\<close>, on the index list from index 2 on: each pair of indices
  gives \<open>string(output[match[i]:match[i+1]])\<close>. An odd number of indices makes
  \<open>match[i+1]\<close> an index out of range.
\<close>

fun submatch_args :: "bytes \<Rightarrow> int list \<Rightarrow> panic + string list" where
  "submatch_args output [] = Inr []"
| "submatch_args output [lo] = Inl Panic"
| "submatch_args output (lo # hi # rest) =
     (case slice output lo hi of
        Inl e \<Rightarrow> Inl e
      | Inr arg \<Rightarrow>
          (case submatch_args output rest of
             Inl e \<Rightarrow> Inl e
           | Inr args \<Rightarrow> Inr (arg # args)))"

text \<open>
  The loop over the formats. The state is \<open>(startPos, desc, report, format)\<close>. On an
  empty index list \<open>match[0]\<close> is an index out of range.
\<close>

type_synonym extract_state = "int \<times> string \<times> bytes \<times> oopsFormat option"

fun extractDescription_loop ::
  "sprintf \<Rightarrow> bytes \<Rightarrow> oopsFormat list \<Rightarrow> extract_state \<Rightarrow> panic + extract_state" where
  "extractDescription_loop sp output [] st = Inr st"
| "extractDescription_loop sp output (f # fs) (startPos, desc, rep, format) =
     (case FindSubmatchIndex (title f) output of
        None \<Rightarrow> extractDescription_loop sp output fs (startPos, desc, rep, format)
      | Some match \<Rightarrow>
          (case match of
             [] \<Rightarrow> Inl Panic
           | m0 # _ \<Rightarrow>
               if startPos \<noteq> -1 \<and> startPos \<le> m0
               then extractDescription_loop sp output fs (startPos, desc, rep, format)
               else (case submatch_args output (drop 2 match) of
                       Inl e \<Rightarrow> Inl e
                     | Inr args \<Rightarrow>
                         (case slice_from output m0 of
                            Inl e \<Rightarrow> Inl e
                          | Inr rep' \<Rightarrow>
                              extractDescription_loop sp output fs
                                (m0, sp (fmt f) args, rep', Some f)))))"

text \<open>The fallback: the line that starts at the first occurrence of the header.\<close>

definition extractDescription_fallback :: "bytes \<Rightarrow> bytes \<Rightarrow> panic + (string \<times> bytes)" where
  "extractDescription_fallback output hdr =
     (let pos = Index output hdr in
      if pos = -1 then Inl Panic
      else (case slice_from output pos of
              Inl e \<Rightarrow> Inl e
            | Inr rest \<Rightarrow>
                (let end = IndexByte rest NL;
                     end = (if end = -1 then int (length output) else end + pos)
                 in case slice output pos end of
                      Inl e \<Rightarrow> Inl e
                    | Inr desc \<Rightarrow> Inr (desc, rest))))"

text \<open>The title at the end of the fallback, before the two final steps.\<close>

definition extractDescription_untrimmed ::
  "sprintf \<Rightarrow> bytes \<Rightarrow> oops_sig \<Rightarrow> panic + (string \<times> bytes \<times> oopsFormat option)" where
  "extractDescription_untrimmed sp output sig =
     (case extractDescription_loop sp output (formats sig) (-1, [], [], None) of
        Inl e \<Rightarrow> Inl e
      | Inr (startPos, desc, rep, format) \<Rightarrow>
          if length desc = 0
          then (case extractDescription_fallback output (header sig) of
                  Inl e \<Rightarrow> Inl e
                | Inr (desc', rep') \<Rightarrow> Inr (desc', rep', format))
          else Inr (desc, rep, format))"

text \<open>The two final steps: one trailing \<open>'\r'\<close> is dropped, then the title is cut.\<close>

definition maxDescLen :: nat where
  "maxDescLen = 180"

definition trim_title :: "string \<Rightarrow> string" where
  "trim_title desc =
     (let desc = (if length desc > 0 \<and> desc ! (length desc - 1) = CR
                  then take (length desc - 1) desc else desc)
      in if length desc > maxDescLen then take maxDescLen desc else desc)"

definition extractDescription ::
  "sprintf \<Rightarrow> bytes \<Rightarrow> oops_sig \<Rightarrow> panic + (string \<times> bytes \<times> oopsFormat option)" where
  "extractDescription sp output sig =
     (case extractDescription_untrimmed sp output sig of
        Inl e \<Rightarrow> Inl e
      | Inr (desc, rep, format) \<Rightarrow> Inr (trim_title desc, rep, format))"


text \<open>
  The first occurrence of a byte sequence in a buffer, in the words of the
  specification: \<open>sep\<close> starts at offset \<open>pos\<close> and at no smaller offset.
\<close>

definition first_occurrence :: "bytes \<Rightarrow> bytes \<Rightarrow> nat \<Rightarrow> bool" where
  "first_occurrence sep s pos =
     (pos \<le> length s \<and> prefix sep (drop pos s) \<and> (\<forall>j<pos. \<not> prefix sep (drop j s)))"

text \<open>
  The selection rule, in the words of the specification: format \<open>i\<close> matches with the
  index list \<open>m\<close>, every matching format starts at or after the start \<open>hd m\<close> of this
  match, and every matching format before \<open>i\<close> starts strictly after it. So \<open>i\<close> is
  the first of the formats with the smallest start offset.
\<close>

definition earliest_match :: "bytes \<Rightarrow> oopsFormat list \<Rightarrow> nat \<Rightarrow> int list \<Rightarrow> bool" where
  "earliest_match outp fs i m =
     (i < length fs \<and> FindSubmatchIndex (title (fs ! i)) outp = Some m \<and> m \<noteq> [] \<and>
      (\<forall>j<length fs.
         case FindSubmatchIndex (title (fs ! j)) outp of
           None \<Rightarrow> True
         | Some m' \<Rightarrow> m' \<noteq> [] \<and> hd m \<le> hd m' \<and> (j < i \<longrightarrow> hd m < hd m')))"

text \<open>
  An index list as the library returns it for a match in which every capture group took
  part: a start within the buffer, and pairs of capture bounds that are slices of the
  buffer.
\<close>

fun valid_pairs :: "nat \<Rightarrow> int list \<Rightarrow> bool" where
  "valid_pairs n [] = True"
| "valid_pairs n [lo] = False"
| "valid_pairs n (lo # hi # rest) =
     (0 \<le> lo \<and> lo \<le> hi \<and> hi \<le> int n \<and> valid_pairs n rest)"

definition wf_match :: "bytes \<Rightarrow> int list \<Rightarrow> bool" where
  "wf_match outp m =
     (m \<noteq> [] \<and> 0 \<le> hd m \<and> hd m \<le> int (length outp) \<and> valid_pairs (length outp) (drop 2 m))"

text \<open>
  The state of the loop of \<open>extractDescription\<close> after the formats \<open>fs\<close>: the initial
  state when none of them matches, the data of the selected format otherwise.
\<close>

definition loop_inv :: "sprintf \<Rightarrow> bytes \<Rightarrow> oopsFormat list \<Rightarrow> extract_state \<Rightarrow> bool" where
  "loop_inv sp outp fs st =
     ((st = (-1, [], [], None) \<and> (\<forall>f \<in> set fs. FindSubmatchIndex (title f) outp = None)) \<or>
      (\<exists>i m args. earliest_match outp fs i m \<and> 0 \<le> hd m \<and> hd m \<le> int (length outp) \<and>
         submatch_args outp (drop 2 m) = Inr args \<and>
         st = (hd m, sp (fmt (fs ! i)) args, drop (nat (hd m)) outp, Some (fs ! i))))"

subsection \<open>NewReporter\<close>

text \<open>
  The six constructors (\<open>ctorLinux\<close> and the others) live in the per-OS files; they are
  parameters here. A constructor may have effects (it compiles the tables of its OS), so
  it takes and returns a state \<open>'w\<close>. The result is Go's pair \<open>(Reporter, error)\<close>, with
  \<open>nil\<close> as \<open>None\<close>; an error is its message.
\<close>

datatype error = Error string

type_synonym ('s, 'r, 'w) ctor =
  "string \<Rightarrow> string \<Rightarrow> 's \<Rightarrow> regexp list \<Rightarrow> 'w \<Rightarrow> ('r option \<times> error option) \<times> 'w"

record ('s, 'r, 'w) ctors =
  ctorAkaros :: "('s, 'r, 'w) ctor"
  ctorLinux :: "('s, 'r, 'w) ctor"
  ctorFreebsd :: "('s, 'r, 'w) ctor"
  ctorNetbsd :: "('s, 'r, 'w) ctor"
  ctorFuchsia :: "('s, 'r, 'w) ctor"
  ctorWindows :: "('s, 'r, 'w) ctor"

definition ctors_map :: "('s, 'r, 'w) ctors \<Rightarrow> (string \<rightharpoonup> ('s, 'r, 'w) ctor)" where
  "ctors_map cs =
     [''akaros'' \<mapsto> ctorAkaros cs,
      ''linux'' \<mapsto> ctorLinux cs,
      ''freebsd'' \<mapsto> ctorFreebsd cs,
      ''netbsd'' \<mapsto> ctorNetbsd cs,
      ''fuchsia'' \<mapsto> ctorFuchsia cs,
      ''windows'' \<mapsto> ctorWindows cs]"

definition NewReporter ::
  "('s, 'r, 'w) ctors \<Rightarrow> string \<Rightarrow> string \<Rightarrow> string \<Rightarrow> 's \<Rightarrow> regexp list \<Rightarrow> 'w
     \<Rightarrow> ('r option \<times> error option) \<times> 'w" where
  "NewReporter cs os kernelSrc kernelObj symbols ignores w =
     (case ctors_map cs os of
        None \<Rightarrow> ((None, Some (Error (''unknown os: '' @ os))), w)
      | Some ctor \<Rightarrow>
          ctor kernelSrc (if kernelObj = [] then kernelSrc else kernelObj) symbols ignores w)"


subsection \<open>containsCrash and matchOops\<close>

lemma IndexByte_range: "IndexByte s c = -1 \<or> (0 \<le> IndexByte s c \<and> IndexByte s c < int (length s))"
  by (induction s) (auto simp: Let_def)

definition matchOops :: "bytes \<Rightarrow> oops_sig \<Rightarrow> regexp list \<Rightarrow> int" where
  "matchOops line sig ignores =
     (let match = Index line (header sig) in
      if match = -1 then -1
      else if \<exists>supp \<in> set (suppressions sig). Match supp line then -1
      else if \<exists>ignore \<in> set ignores. Match ignore line then -1
      else match)"

text \<open>
  The inner loop of \<open>containsCrash\<close> over the signatures, for the line
  \<open>output[pos:next]\<close>: \<open>Inr True\<close> is the \<open>return true\<close>, \<open>Inr False\<close> the end of the
  loop.
\<close>

fun containsCrash_inner ::
  "bytes \<Rightarrow> int \<Rightarrow> int \<Rightarrow> oops_sig list \<Rightarrow> regexp list \<Rightarrow> panic + bool" where
  "containsCrash_inner output pos next [] ignores = Inr False"
| "containsCrash_inner output pos next (sig # oopses) ignores =
     (case slice output pos next of
        Inl e \<Rightarrow> Inl e
      | Inr line \<Rightarrow>
          if matchOops line sig ignores = -1
          then containsCrash_inner output pos next oopses ignores
          else Inr True)"

text \<open>The outer loop, from the position \<open>pos\<close>.\<close>

function containsCrash_from ::
  "bytes \<Rightarrow> oops_sig list \<Rightarrow> regexp list \<Rightarrow> int \<Rightarrow> panic + bool" where
  "containsCrash_from output oopses ignores pos =
     (if pos < int (length output) then
        (case slice_from output pos of
           Inl e \<Rightarrow> Inl e
         | Inr rest \<Rightarrow>
             (let next = IndexByte rest NL;
                  next = (if next \<noteq> -1 then next + pos else int (length output))
              in case containsCrash_inner output pos next oopses ignores of
                   Inl e \<Rightarrow> Inl e
                 | Inr True \<Rightarrow> Inr True
                 | Inr False \<Rightarrow> containsCrash_from output oopses ignores (next + 1)))
      else Inr False)"
  by pat_completeness auto
termination containsCrash_from
proof (relation "measure (\<lambda>(output, oopses, ignores, pos). nat (int (length output) - pos))")
  show "wf (measure (\<lambda>(output, oopses, ignores, pos). nat (int (length output) - pos)))"
    by simp
next
  fix out :: bytes and oopses :: "oops_sig list" and ignores :: "regexp list"
    and pos x2 x y :: int and rest :: bytes
  assume "pos < int (length out)" and "x2 = IndexByte rest NL"
    and "x = (if x2 \<noteq> -1 then x2 + pos else int (length out))"
  moreover have "IndexByte rest NL = -1 \<or> 0 \<le> IndexByte rest NL"
    using IndexByte_range [of rest NL] by auto
  ultimately show "((out, oopses, ignores, x + 1), (out, oopses, ignores, pos))
      \<in> measure (\<lambda>(output, oopses, ignores, pos). nat (int (length output) - pos))"
    by auto
qed

declare containsCrash_from.simps [simp del]

definition containsCrash :: "bytes \<Rightarrow> oops_sig list \<Rightarrow> regexp list \<Rightarrow> panic + bool" where
  "containsCrash output oopses ignores = containsCrash_from output oopses ignores 0"

text \<open>
  The lines of a buffer, in the words of the specification: the buffer is split at each
  \<open>'\n'\<close>, and the bytes after the last \<open>'\n'\<close>, when there are any, are a final
  partial line. The empty buffer has no line.
\<close>

fun lines_of :: "bytes \<Rightarrow> bytes list" where
  "lines_of [] = []"
| "lines_of (c # cs) =
     (if c = NL then [] # lines_of cs
      else (case lines_of cs of [] \<Rightarrow> [[c]] | l # ls \<Rightarrow> (c # l) # ls))"

text \<open>
  A signature accepts a line, in the words of the specification: the line contains the
  header as a contiguous byte sequence, and no suppression pattern of the signature and
  no ignore pattern matches the line.
\<close>

definition accepts :: "oops_sig \<Rightarrow> regexp list \<Rightarrow> bytes \<Rightarrow> bool" where
  "accepts sig ignores line =
     (sublist (header sig) line \<and>
      \<not> (\<exists>supp \<in> set (suppressions sig). Match supp line) \<and>
      \<not> (\<exists>ignore \<in> set ignores. Match ignore line))"

subsection \<open>replace\<close>

text \<open>
  \<open>replace(where, start, end, what)\<close> writes through the slice it is given, may move it
  to a new backing array, and can be called with a \<open>what\<close> that shares memory with
  \<open>where\<close>. So for this function a slice is what it is in Go: a header (pointer, length,
  capacity) into a memory of bytes, here one flat memory that holds every backing array.
  The parameter \<open>where\<close> is called \<open>buf\<close> below.
\<close>

type_synonym memory = "byte list"

record byte_slice =
  base :: nat
  len :: nat
  cap :: nat

text \<open>
  A slice is valid when its capacity lies inside the memory. \<open>contents\<close> are the bytes
  \<open>s[0], \<dots>, s[len(s)-1]\<close>.
\<close>

definition valid_slice :: "memory \<Rightarrow> byte_slice \<Rightarrow> bool" where
  "valid_slice mem s = (len s \<le> cap s \<and> base s + cap s \<le> length mem)"

definition contents :: "memory \<Rightarrow> byte_slice \<Rightarrow> bytes" where
  "contents mem s = take (len s) (drop (base s) mem)"

text \<open>
  The slice expressions \<open>s[lo:hi]\<close>, \<open>s[lo:]\<close> and \<open>s[:hi]\<close> on a slice: Go panics unless
  \<open>0 \<le> lo \<le> hi \<le> cap(s)\<close>; a missing \<open>lo\<close> is 0 and a missing \<open>hi\<close> is \<open>len(s)\<close>.
\<close>

definition reslice :: "byte_slice \<Rightarrow> int \<Rightarrow> int \<Rightarrow> panic + byte_slice" where
  "reslice s lo hi =
     (if 0 \<le> lo \<and> lo \<le> hi \<and> hi \<le> int (cap s)
      then Inr \<lparr>base = base s + nat lo, len = nat (hi - lo), cap = cap s - nat lo\<rparr>
      else Inl Panic)"

definition reslice_from :: "byte_slice \<Rightarrow> int \<Rightarrow> panic + byte_slice" where
  "reslice_from s lo = reslice s lo (int (len s))"

definition reslice_to :: "byte_slice \<Rightarrow> int \<Rightarrow> panic + byte_slice" where
  "reslice_to s hi = reslice s 0 hi"

text \<open>
  The built-in \<open>copy(dst, src)\<close> copies \<open>min(len(dst), len(src))\<close> bytes and allows the two
  to overlap: the bytes of \<open>src\<close> are read before any byte is written.
\<close>

definition mem_write :: "memory \<Rightarrow> nat \<Rightarrow> bytes \<Rightarrow> memory" where
  "mem_write mem p bs = take p mem @ bs @ drop (p + length bs) mem"

definition go_copy :: "memory \<Rightarrow> byte_slice \<Rightarrow> byte_slice \<Rightarrow> memory" where
  "go_copy mem dst src =
     mem_write mem (base dst) (take (min (len dst) (len src)) (contents mem src))"

text \<open>
  The built-in \<open>append(s, src...)\<close>. If the capacity of \<open>s\<close> suffices, the bytes are written
  in place after \<open>s[len(s)-1]\<close>. Otherwise a new array is allocated, here at the end of the
  memory, and receives the bytes of \<open>s\<close> followed by those of \<open>src\<close>; the old array is left
  as it is. How much capacity the new array has beyond \<open>len(s) + len(src)\<close> is the choice of
  the run-time system: the parameter \<open>spare\<close>.
\<close>

definition go_append :: "nat \<Rightarrow> memory \<Rightarrow> byte_slice \<Rightarrow> byte_slice \<Rightarrow> memory \<times> byte_slice" where
  "go_append spare mem s src =
     (if len s + len src \<le> cap s
      then (mem_write mem (base s + len s) (contents mem src), s\<lparr>len := len s + len src\<rparr>)
      else (mem @ contents mem s @ contents mem src @ replicate spare (CHR 0x00),
            \<lparr>base = length mem, len = len s + len src, cap = len s + len src + spare\<rparr>))"

text \<open>
  \<open>replace\<close>, statement by statement. The result is the memory after the call and the
  slice returned.
\<close>

definition replace ::
  "nat \<Rightarrow> memory \<Rightarrow> byte_slice \<Rightarrow> int \<Rightarrow> int \<Rightarrow> byte_slice \<Rightarrow> panic + (memory \<times> byte_slice)" where
  "replace spare mem buf start end what =
     (if int (len what) \<ge> end - start then
        (case reslice_from what (end - start) of
           Inl e \<Rightarrow> Inl e
         | Inr tail \<Rightarrow>
             (case go_append spare mem buf tail of
                (mem1, buf1) \<Rightarrow>
                  (case reslice_from buf1 (start + int (len what)) of
                     Inl e \<Rightarrow> Inl e
                   | Inr dst \<Rightarrow>
                       (case reslice_from buf1 end of
                          Inl e \<Rightarrow> Inl e
                        | Inr src \<Rightarrow>
                            (case reslice_from buf1 start of
                               Inl e \<Rightarrow> Inl e
                             | Inr dst' \<Rightarrow>
                                 Inr (go_copy (go_copy mem1 dst src) dst' what, buf1))))))
      else
        (case reslice_from buf (start + int (len what)) of
           Inl e \<Rightarrow> Inl e
         | Inr dst \<Rightarrow>
             (case reslice_from buf end of
                Inl e \<Rightarrow> Inl e
              | Inr src \<Rightarrow>
                  (case reslice_to buf (int (len buf) - (end - start - int (len what))) of
                     Inl e \<Rightarrow> Inl e
                   | Inr buf1 \<Rightarrow>
                       (case reslice_from buf1 start of
                          Inl e \<Rightarrow> Inl e
                        | Inr dst' \<Rightarrow>
                            Inr (go_copy (go_copy mem dst src) dst' what, buf1))))))"

subsection \<open>Instances for the examples\<close>

text \<open>
  The theorems below hold for every \<open>sprintf\<close> and every pattern. The examples need
  instances. \<open>Sprintf\<close> follows \<open>fmt.Sprintf\<close> on string arguments for templates
  whose verbs are \<open>%s\<close>, \<open>%v\<close> and \<open>%%\<close>, with the library's marks for a missing
  argument, for arguments left over and for a template that ends in \<open>%\<close>. It is not
  \<open>fmt.Sprintf\<close> on other verbs, flags, widths or explicit argument indexes; the
  examples use only templates without such directives. \<open>literal s\<close>
  is the compiled pattern of a string \<open>s\<close> without metacharacters: it matches at the
  first occurrence of \<open>s\<close>. \<open>literal_group s n\<close> is the same with one capture group
  around the first \<open>n\<close> bytes of \<open>s\<close>.
\<close>

fun extra_args :: "string list \<Rightarrow> string" where
  "extra_args [] = []"
| "extra_args [a] = ''string='' @ a"
| "extra_args (a # b # args) = ''string='' @ a @ '', '' @ extra_args (b # args)"

fun Sprintf :: sprintf where
  "Sprintf [] [] = []"
| "Sprintf [] (a # args) = ''%!(EXTRA '' @ extra_args (a # args) @ '')''"
| "Sprintf [c] args =
     (if c = CHR ''%'' then ''%!(NOVERB)'' @ Sprintf [] args else c # Sprintf [] args)"
| "Sprintf (c # d # t) args =
     (if c = CHR ''%'' \<and> d = CHR ''%'' then CHR ''%'' # Sprintf t args
      else if c = CHR ''%'' \<and> (d = CHR ''s'' \<or> d = CHR ''v'') then
        (case args of
           [] \<Rightarrow> ''%!'' @ [d] @ ''(MISSING)'' @ Sprintf t []
         | a # args' \<Rightarrow> a @ Sprintf t args')
      else c # Sprintf (d # t) args)"

definition literal :: "bytes \<Rightarrow> regexp" where
  "literal s =
     \<lparr>Match = (\<lambda>b. Index b s \<noteq> -1),
      FindSubmatchIndex =
        (\<lambda>b. if Index b s = -1 then None else Some [Index b s, Index b s + int (length s)])\<rparr>"

definition literal_group :: "bytes \<Rightarrow> nat \<Rightarrow> regexp" where
  "literal_group s n =
     \<lparr>Match = (\<lambda>b. Index b s \<noteq> -1),
      FindSubmatchIndex =
        (\<lambda>b. if Index b s = -1 then None
             else Some [Index b s, Index b s + int (length s), Index b s, Index b s + int n])\<rparr>"

definition simple_format :: "regexp \<Rightarrow> string \<Rightarrow> oopsFormat" where
  "simple_format re tmpl =
     \<lparr>title = re, report = None, fmt = tmpl, noStackTrace = False, corrupted = False\<rparr>"

section \<open>Properties\<close>

subsection \<open>Facts about the library functions and the line split\<close>

lemma IndexByte_notin: "c \<notin> set s \<Longrightarrow> IndexByte s c = -1"
  by (induction s) auto

lemma IndexByte_in: "c \<in> set s \<Longrightarrow> IndexByte s c = int (length (takeWhile (\<lambda>x. x \<noteq> c) s))"
proof (induction s)
  case Nil
  then show ?case by simp
next
  case (Cons x s)
  show ?case
  proof (cases "x = c")
    case True
    then show ?thesis by simp
  next
    case False
    with Cons.prems have "c \<in> set s" by simp
    with Cons.IH False show ?thesis by (simp add: Let_def)
  qed
qed

lemma Index_range:
  "Index s sep = -1 \<or> (0 \<le> Index s sep \<and> Index s sep + int (length sep) \<le> int (length s))"
proof (induction s)
  case Nil
  then show ?case by simp
next
  case (Cons x s)
  show ?case
  proof (cases "prefix sep (x # s)")
    case True
    then show ?thesis using prefix_length_le [of sep "x # s"] by simp
  next
    case False
    with Cons.IH show ?thesis by (auto simp: Let_def)
  qed
qed

lemma Index_sublist: "Index s sep \<noteq> -1 \<longleftrightarrow> sublist sep s"
proof (induction s)
  case Nil
  then show ?case by simp
next
  case (Cons x s)
  have "Index s sep = -1 \<or> 0 \<le> Index s sep" using Index_range [of s sep] by auto
  with Cons.IH show ?case
    by (auto simp: Let_def sublist_Cons_right)
qed

lemma lines_of_unfold:
  "s \<noteq> [] \<Longrightarrow>
   lines_of s = takeWhile (\<lambda>x. x \<noteq> NL) s
                 # lines_of (drop (Suc (length (takeWhile (\<lambda>x. x \<noteq> NL) s))) s)"
proof (induction s)
  case Nil
  then show ?case by simp
next
  case (Cons c cs)
  show ?case
  proof (cases "c = NL")
    case True
    then show ?thesis by simp
  next
    case False
    show ?thesis
    proof (cases "cs = []")
      case True
      with False show ?thesis by simp
    next
      case False
      from Cons.IH [OF this] \<open>c \<noteq> NL\<close> show ?thesis by simp
    qed
  qed
qed

lemma matchOops_accepts: "matchOops line sig ignores \<noteq> -1 \<longleftrightarrow> accepts sig ignores line"
  using Index_sublist [of line "header sig"]
  by (auto simp: matchOops_def accepts_def Let_def)

lemma containsCrash_inner_eq:
  "slice outp pos next = Inr line \<Longrightarrow>
   containsCrash_inner outp pos next oopses ignores
     = Inr (\<exists>sig \<in> set oopses. accepts sig ignores line)"
proof (induction oopses)
  case Nil
  then show ?case by simp
next
  case (Cons sig oopses)
  then show ?case using matchOops_accepts [of line sig ignores] by auto
qed

lemma containsCrash_from_eq:
  "0 \<le> pos \<Longrightarrow>
   containsCrash_from outp oopses ignores pos
     = Inr (\<exists>line \<in> set (lines_of (drop (nat pos) outp)).
              \<exists>sig \<in> set oopses. accepts sig ignores line)"
proof (induction outp oopses ignores pos rule: containsCrash_from.induct)
  case (1 outp oopses ignores pos)
  show ?case
  proof (cases "pos < int (length outp)")
    case False
    then have "drop (nat pos) outp = []" using "1.prems" by simp
    with False show ?thesis by (simp add: containsCrash_from.simps [of outp oopses ignores pos])
  next
    case True
    define rest where "rest = drop (nat pos) outp"
    define line where "line = takeWhile (\<lambda>x. x \<noteq> NL) rest"
    define nxt where "nxt = (if IndexByte rest NL \<noteq> -1 then IndexByte rest NL + pos else int (length outp))"
    have rest_ne: "rest \<noteq> []" using True "1.prems" by (simp add: rest_def)
    have sf: "slice_from outp pos = Inr rest"
      using True "1.prems" by (simp add: slice_from_def slice_def rest_def)
    have len_rest: "int (length rest) = int (length outp) - pos"
      using True "1.prems" by (simp add: rest_def)
    have nxt_eq: "nxt = pos + int (length line) \<or> (NL \<notin> set rest \<and> nxt = int (length outp))"
    proof (cases "NL \<in> set rest")
      case True
      then show ?thesis using IndexByte_in [of NL rest] by (simp add: nxt_def line_def)
    next
      case False
      then show ?thesis using IndexByte_notin [of NL rest] by (simp add: nxt_def)
    qed
    have line_len: "int (length line) \<le> int (length rest)"
      by (simp add: line_def length_takeWhile_le)
    have nxt_line: "nxt = pos + int (length line)"
    proof -
      { assume "NL \<notin> set rest"
        then have "line = rest" by (auto simp: line_def)
        then have "pos + int (length line) = int (length outp)" using len_rest by simp }
      with nxt_eq show ?thesis by auto
    qed
    have sl: "slice outp pos nxt = Inr line"
    proof -
      have "take (length line) rest = line"
        by (simp add: line_def takeWhile_eq_take [symmetric])
      then show ?thesis
        using nxt_line line_len len_rest "1.prems"
        by (simp add: slice_def rest_def)
    qed
    have inner: "containsCrash_inner outp pos nxt oopses ignores
                   = Inr (\<exists>sig \<in> set oopses. accepts sig ignores line)"
      by (rule containsCrash_inner_eq [OF sl])
    have lines: "lines_of rest = line # lines_of (drop (nat (nxt + 1)) outp)"
    proof -
      have "nat (nxt + 1) = nat pos + Suc (length line)"
        using nxt_line "1.prems" by simp
      then have "drop (nat (nxt + 1)) outp = drop (Suc (length line)) rest"
        by (simp add: rest_def add.commute)
      then show ?thesis using lines_of_unfold [OF rest_ne] by (simp add: line_def)
    qed
    show ?thesis
    proof (cases "\<exists>sig \<in> set oopses. accepts sig ignores line")
      case True
      with inner sf \<open>pos < int (length outp)\<close> lines show ?thesis
        by (simp add: containsCrash_from.simps [of outp oopses ignores pos]
                      nxt_def [symmetric] rest_def [symmetric] Let_def)
    next
      case False
      have nn: "0 \<le> nxt + 1" using nxt_line "1.prems" by simp
      have IH: "containsCrash_from outp oopses ignores (nxt + 1)
                  = Inr (\<exists>line \<in> set (lines_of (drop (nat (nxt + 1)) outp)).
                           \<exists>sig \<in> set oopses. accepts sig ignores line)"
        using "1.IH" [OF True sf refl nxt_def inner] False nn
        by simp
      with inner sf \<open>pos < int (length outp)\<close> lines False show ?thesis
        by (simp add: containsCrash_from.simps [of outp oopses ignores pos]
                      nxt_def [symmetric] rest_def [symmetric] Let_def)
    qed
  qed
qed

subsection \<open>containsCrash and matchOops\<close>

text \<open>
  Claim C2. \<open>containsCrash\<close> never panics, and it returns true exactly when some line of
  the output (the output split at \<open>'\n'\<close>, a final partial line included) and some
  registered signature are such that the line contains the header of the signature as
  a contiguous byte sequence and neither a suppression pattern of the signature nor an
  ignore pattern matches the line. Pattern matching has no effect, so returning at the
  first accepted line and returning after the whole scan give the same value.
\<close>

theorem containsCrash_iff_accepted_line:
  "containsCrash outp oopses ignores
     = Inr (\<exists>line \<in> set (lines_of outp). \<exists>sig \<in> set oopses. accepts sig ignores line)"
  using containsCrash_from_eq [of 0 outp oopses ignores] by (simp add: containsCrash_def)

theorem containsCrash_iff_accepted_line_witness:
  "containsCrash (''foo'' @ [NL] @ ''KERNEL PANIC: null deref at 0xdead'' @ [NL] @ ''bar'' @ [NL])
     [\<lparr>header = ''KERNEL PANIC'', formats = [], suppressions = []\<rparr>] [] = Inr True
   \<and> containsCrash (''foo'' @ [NL] @ ''KERNEL PANIC: null deref at 0xdead'' @ [NL] @ ''bar'' @ [NL])
     [\<lparr>header = ''KERNEL PANIC'', formats = [], suppressions = []\<rparr>]
     [\<lparr>Match = prefix ''KERNEL PANIC'', FindSubmatchIndex = (\<lambda>b. None)\<rparr>] = Inr False"
  by (simp add: containsCrash_iff_accepted_line accepts_def NL_def sublist_Cons_right)

lemma lines_of_nonempty: "outp \<noteq> [] \<Longrightarrow> lines_of outp \<noteq> []"
  using lines_of_unfold [of outp] by simp

text \<open>
  Claim C10. Let a registered signature have the empty header and no suppression
  pattern. Then \<open>matchOops\<close> accepts every line that no ignore pattern matches, with
  offset 0; \<open>containsCrash\<close> returns true for every non-empty output buffer that has a
  line no ignore pattern matches (with no ignore pattern, for every non-empty buffer); and
  \<open>containsCrash\<close> returns false for the empty buffer.
\<close>

theorem empty_header_accepts_every_line:
  assumes "sig \<in> set oopses" and "header sig = []" and "suppressions sig = []"
  shows "(\<forall>line. \<not> (\<exists>ignore \<in> set ignores. Match ignore line)
            \<longrightarrow> matchOops line sig ignores = 0)
       \<and> (\<forall>outp. outp \<noteq> []
            \<and> (\<exists>line \<in> set (lines_of outp). \<not> (\<exists>ignore \<in> set ignores. Match ignore line))
            \<longrightarrow> containsCrash outp oopses ignores = Inr True)
       \<and> (\<forall>outp. outp \<noteq> [] \<and> ignores = [] \<longrightarrow> containsCrash outp oopses ignores = Inr True)
       \<and> containsCrash [] oopses ignores = Inr False"
proof (intro conjI allI impI)
  fix line
  assume "\<not> (\<exists>ignore \<in> set ignores. Match ignore line)"
  moreover have "Index line [] = 0" by (cases line) simp_all
  ultimately show "matchOops line sig ignores = 0"
    using assms by (simp add: matchOops_def)
next
  fix outp :: bytes
  assume "outp \<noteq> []
    \<and> (\<exists>line \<in> set (lines_of outp). \<not> (\<exists>ignore \<in> set ignores. Match ignore line))"
  then obtain line where "line \<in> set (lines_of outp)"
    and "\<not> (\<exists>ignore \<in> set ignores. Match ignore line)" by blast
  moreover from this have "accepts sig ignores line"
    using assms by (simp add: accepts_def)
  ultimately have "\<exists>line \<in> set (lines_of outp). \<exists>sig \<in> set oopses. accepts sig ignores line"
    using assms(1) by blast
  then show "containsCrash outp oopses ignores = Inr True"
    using containsCrash_from_eq [of 0 outp oopses ignores] by (simp add: containsCrash_def)
next
  fix outp :: bytes
  assume "outp \<noteq> [] \<and> ignores = []"
  then obtain line where "line \<in> set (lines_of outp)" and "ignores = []"
    using lines_of_nonempty [of outp] by (cases "lines_of outp") auto
  moreover from this have "accepts sig ignores line"
    using assms by (simp add: accepts_def)
  ultimately have "\<exists>line \<in> set (lines_of outp). \<exists>sig \<in> set oopses. accepts sig ignores line"
    using assms(1) by blast
  then show "containsCrash outp oopses ignores = Inr True"
    using containsCrash_from_eq [of 0 outp oopses ignores] by (simp add: containsCrash_def)
next
  show "containsCrash [] oopses ignores = Inr False"
    using containsCrash_from_eq [of 0 "[]" oopses ignores] by (simp add: containsCrash_def)
qed

theorem empty_header_accepts_every_line_witness:
  "matchOops ''any line'' \<lparr>header = [], formats = [], suppressions = []\<rparr> [] = 0
   \<and> containsCrash [NL] [\<lparr>header = [], formats = [], suppressions = []\<rparr>] [] = Inr True
   \<and> containsCrash [] [\<lparr>header = [], formats = [], suppressions = []\<rparr>] [] = Inr False"
  using empty_header_accepts_every_line
    [of "\<lparr>header = [], formats = [], suppressions = []\<rparr>"
        "[\<lparr>header = [], formats = [], suppressions = []\<rparr>]" "[]"]
  by simp

subsection \<open>Facts about the fallback and the final steps of extractDescription\<close>

lemma Index_first_occurrence:
  "sublist sep s \<Longrightarrow> 0 \<le> Index s sep \<and> first_occurrence sep s (nat (Index s sep))"
proof (induction s)
  case Nil
  then show ?case by (simp add: first_occurrence_def)
next
  case (Cons x s)
  show ?case
  proof (cases "prefix sep (x # s)")
    case True
    then show ?thesis by (simp add: first_occurrence_def)
  next
    case False
    with Cons.prems have sub: "sublist sep s" by (simp add: sublist_Cons_right)
    from Cons.IH [OF sub] have r: "0 \<le> Index s sep"
      and fo: "first_occurrence sep s (nat (Index s sep))" by auto
    have idx: "Index (x # s) sep = Index s sep + 1" using False r by (simp add: Let_def)
    have n: "nat (Index s sep + 1) = Suc (nat (Index s sep))" using r by simp
    have "\<forall>j<Suc (nat (Index s sep)). \<not> prefix sep (drop j (x # s))"
    proof (intro allI impI)
      fix j assume "j < Suc (nat (Index s sep))"
      then show "\<not> prefix sep (drop j (x # s))"
        using False fo by (cases j) (auto simp: first_occurrence_def)
    qed
    then show ?thesis using fo r idx n by (simp add: first_occurrence_def)
  qed
qed

lemma slice_line:
  assumes "0 \<le> pos" and "pos \<le> int (length outp)"
  shows "slice outp pos
           (if IndexByte (drop (nat pos) outp) NL = -1 then int (length outp)
            else IndexByte (drop (nat pos) outp) NL + pos)
         = Inr (takeWhile (\<lambda>c. c \<noteq> NL) (drop (nat pos) outp))"
proof -
  define rest where "rest = drop (nat pos) outp"
  define line where "line = takeWhile (\<lambda>c. c \<noteq> NL) rest"
  have len_rest: "int (length rest) = int (length outp) - pos"
    using assms by (simp add: rest_def)
  have line_len: "length line \<le> length rest" by (simp add: line_def length_takeWhile_le)
  have tk: "take (length line) rest = line"
    by (simp add: line_def takeWhile_eq_take [symmetric])
  show ?thesis
  proof (cases "NL \<in> set rest")
    case True
    then have "IndexByte rest NL = int (length line)"
      using IndexByte_in [of NL rest] by (simp add: line_def)
    then show ?thesis
      using tk line_len len_rest assms
      by (simp add: slice_def rest_def [symmetric] line_def [symmetric])
  next
    case False
    then have "IndexByte rest NL = -1" by (rule IndexByte_notin)
    moreover from False have "line = rest" by (auto simp: line_def)
    ultimately show ?thesis
      using len_rest assms
      by (simp add: slice_def rest_def [symmetric] line_def [symmetric])
  qed
qed

lemma extractDescription_fallback_eq:
  assumes "sublist hdr outp"
  shows "extractDescription_fallback outp hdr
           = Inr (takeWhile (\<lambda>c. c \<noteq> NL) (drop (nat (Index outp hdr)) outp),
                  drop (nat (Index outp hdr)) outp)"
proof -
  have r: "0 \<le> Index outp hdr" using Index_first_occurrence [OF assms] by simp
  have le: "Index outp hdr \<le> int (length outp)"
    using Index_range [of outp hdr] r by auto
  have sf: "slice_from outp (Index outp hdr) = Inr (drop (nat (Index outp hdr)) outp)"
    using r le by (simp add: slice_from_def slice_def)
  show ?thesis
    using r sf slice_line [OF r le]
    by (simp add: extractDescription_fallback_def Let_def)
qed

lemma extractDescription_fallback_absent:
  "\<not> sublist hdr outp \<Longrightarrow> extractDescription_fallback outp hdr = Inl Panic"
  using Index_sublist [of outp hdr] by (simp add: extractDescription_fallback_def)

lemma extractDescription_loop_no_match:
  "\<forall>f \<in> set fs. FindSubmatchIndex (title f) outp = None \<Longrightarrow>
   extractDescription_loop sp outp fs st = Inr st"
proof (induction fs)
  case Nil
  then show ?case by simp
next
  case (Cons f fs)
  then show ?case by (cases st) simp
qed

lemma length_trim_title: "length (trim_title d) \<le> 180"
  by (simp add: trim_title_def maxDescLen_def Let_def)

lemma trim_title_long:
  assumes "180 < length d"
  shows "trim_title d = take 180 d"
proof (cases "d ! (length d - 1) = CR")
  case True
  show ?thesis
  proof (cases "180 < length d - 1")
    case True
    with \<open>d ! (length d - 1) = CR\<close> assms show ?thesis
      by (simp add: trim_title_def maxDescLen_def Let_def min_def)
  next
    case False
    with assms have "length d - 1 = 180" by simp
    with \<open>d ! (length d - 1) = CR\<close> assms show ?thesis
      by (simp add: trim_title_def maxDescLen_def Let_def)
  qed
next
  case False
  with assms show ?thesis by (simp add: trim_title_def maxDescLen_def Let_def)
qed

lemma trim_title_CR_iff:
  "(trim_title d \<noteq> [] \<and> last (trim_title d) = CR)
     \<longleftrightarrow> (if 180 < length d then d ! 179 = CR else suffix [CR, CR] d)"
proof (cases "180 < length d")
  case True
  then have t: "trim_title d = take 180 d" by (rule trim_title_long)
  have n: "take 180 d \<noteq> []" using True by auto
  have "last (take 180 d) = take 180 d ! (length (take 180 d) - 1)"
    using n by (rule last_conv_nth)
  also have "\<dots> = d ! 179" using True by simp
  finally show ?thesis using True t n by simp
next
  case False
  show ?thesis
  proof (cases "d = []")
    case True
    then show ?thesis by (simp add: trim_title_def Let_def suffix_def)
  next
    case ne: False
    then obtain ys y where d: "d = ys @ [y]" by (meson rev_exhaust)
    show ?thesis
    proof (cases "y = CR")
      case True
      have t: "trim_title d = ys"
        using d True False by (simp add: trim_title_def maxDescLen_def Let_def nth_append)
      have "suffix [CR, CR] (ys @ [CR]) \<longleftrightarrow> ys \<noteq> [] \<and> last ys = CR"
      proof (cases "ys = []")
        case True
        then show ?thesis by (simp add: suffix_def)
      next
        case False
        then obtain zs z where ys: "ys = zs @ [z]" by (meson rev_exhaust)
        then show ?thesis by (auto simp: suffix_def)
      qed
      then show ?thesis using t d True False by simp
    next
      case nCR: False
      have t: "trim_title d = d"
        using d nCR False by (simp add: trim_title_def maxDescLen_def Let_def nth_append)
      have "\<not> suffix [CR, CR] (ys @ [y])" using nCR by (auto simp: suffix_def)
      then show ?thesis using t d nCR False by simp
    qed
  qed
qed

lemmas eval_defs = extractDescription_def extractDescription_untrimmed_def
  extractDescription_fallback_def slice_def slice_from_def trim_title_def maxDescLen_def
  NL_def CR_def Let_def

subsection \<open>extractDescription: the fallback\<close>

text \<open>
  Claim C3, as the specification states it, gives the fallback title as the bytes from
  the first occurrence of the header up to the next \<open>'\n'\<close>. The two final steps apply
  to the fallback title too: on a line that ends with \<open>'\r'\<close> the title is shorter.
\<close>

theorem fallback_title_counterexample:
  "extractDescription (\<lambda>f a. f) (''xx HDR y'' @ [CR, NL] @ ''z'')
     \<lparr>header = ''HDR'', formats = [], suppressions = []\<rparr>
     = Inr (''HDR y'', ''HDR y'' @ [CR, NL] @ ''z'', None)
   \<and> takeWhile (\<lambda>c. c \<noteq> NL) (drop 3 (''xx HDR y'' @ [CR, NL] @ ''z'')) = ''HDR y'' @ [CR]"
  by (simp add: eval_defs)

text \<open>
  Claim C3, amended. When no format matches the output: if the header occurs in the
  output, \<open>extractDescription\<close> does not panic; with \<open>pos\<close> the first occurrence of the
  header, the title is the bytes from \<open>pos\<close> up to the next \<open>'\n'\<close> (or the end of the
  buffer) after the two final steps (one trailing \<open>'\r'\<close> dropped, then cut to 180
  bytes), the report is the suffix of the output from \<open>pos\<close>, and the format is the
  zero value. If the header does not occur, \<open>extractDescription\<close> panics.
\<close>

theorem fallback_title:
  assumes "\<forall>f \<in> set (formats sig). FindSubmatchIndex (title f) outp = None"
  shows "(sublist (header sig) outp \<longrightarrow>
            (\<exists>pos. first_occurrence (header sig) outp pos \<and>
               extractDescription sp outp sig
                 = Inr (trim_title (takeWhile (\<lambda>c. c \<noteq> NL) (drop pos outp)),
                        drop pos outp, None)))
       \<and> (\<not> sublist (header sig) outp \<longrightarrow> extractDescription sp outp sig = Inl Panic)"
proof (intro conjI impI)
  assume sub: "sublist (header sig) outp"
  have "extractDescription sp outp sig
          = Inr (trim_title (takeWhile (\<lambda>c. c \<noteq> NL) (drop (nat (Index outp (header sig))) outp)),
                 drop (nat (Index outp (header sig))) outp, None)"
    using extractDescription_loop_no_match [OF assms] extractDescription_fallback_eq [OF sub]
    by (simp add: extractDescription_def extractDescription_untrimmed_def)
  then show "\<exists>pos. first_occurrence (header sig) outp pos \<and>
               extractDescription sp outp sig
                 = Inr (trim_title (takeWhile (\<lambda>c. c \<noteq> NL) (drop pos outp)),
                        drop pos outp, None)"
    using Index_first_occurrence [OF sub] by blast
next
  assume "\<not> sublist (header sig) outp"
  then show "extractDescription sp outp sig = Inl Panic"
    using extractDescription_loop_no_match [OF assms] extractDescription_fallback_absent
    by (simp add: extractDescription_def extractDescription_untrimmed_def)
qed

theorem fallback_title_witness:
  "first_occurrence ''KERNEL PANIC''
     (''foo'' @ [NL] @ ''KERNEL PANIC: null deref at 0xdead'' @ [NL] @ ''bar'' @ [NL]) 4
   \<and> extractDescription (\<lambda>f a. f)
     (''foo'' @ [NL] @ ''KERNEL PANIC: null deref at 0xdead'' @ [NL] @ ''bar'' @ [NL])
     \<lparr>header = ''KERNEL PANIC'', formats = [], suppressions = []\<rparr>
     = Inr (''KERNEL PANIC: null deref at 0xdead'',
            ''KERNEL PANIC: null deref at 0xdead'' @ [NL] @ ''bar'' @ [NL], None)
   \<and> extractDescription (\<lambda>f a. f) ''no header here''
     \<lparr>header = ''KERNEL PANIC'', formats = [], suppressions = []\<rparr> = Inl Panic"
proof -
  let ?sig = "\<lparr>header = ''KERNEL PANIC'', formats = [], suppressions = []\<rparr>"
  let ?out = "''foo'' @ [NL] @ ''KERNEL PANIC: null deref at 0xdead'' @ [NL] @ ''bar'' @ [NL]"
  have fo: "first_occurrence ''KERNEL PANIC'' ?out 4"
    by (simp add: first_occurrence_def NL_def less_Suc_eq numeral_eq_Suc)
  have "sublist (header ?sig) ?out" by (simp add: sublist_Cons_right)
  with fallback_title [of ?sig ?out "\<lambda>f a. f"]
  have "extractDescription (\<lambda>f a. f) ?out ?sig = Inr (''KERNEL PANIC: null deref at 0xdead'',
            ''KERNEL PANIC: null deref at 0xdead'' @ [NL] @ ''bar'' @ [NL], None)"
    by (simp add: eval_defs)
  moreover have "\<not> sublist (header ?sig) ''no header here''"
    by (simp add: sublist_Cons_right)
  with fallback_title [of ?sig "''no header here''" "\<lambda>f a. f"]
  have "extractDescription (\<lambda>f a. f) ''no header here'' ?sig = Inl Panic" by simp
  ultimately show ?thesis using fo by simp
qed

subsection \<open>Facts about the loop of extractDescription\<close>

lemma loop_invI1:
  "st = (-1, [], [], None) \<Longrightarrow> \<forall>f \<in> set fs. FindSubmatchIndex (title f) outp = None \<Longrightarrow>
   loop_inv sp outp fs st"
  by (simp add: loop_inv_def)

lemma loop_invI2:
  "earliest_match outp fs i m \<Longrightarrow> 0 \<le> hd m \<Longrightarrow> hd m \<le> int (length outp) \<Longrightarrow>
   submatch_args outp (drop 2 m) = Inr args \<Longrightarrow>
   st = (hd m, sp (fmt (fs ! i)) args, drop (nat (hd m)) outp, Some (fs ! i)) \<Longrightarrow>
   loop_inv sp outp fs st"
  unfolding loop_inv_def by blast

lemma earliest_match_unique:
  assumes "earliest_match outp fs i m" and "earliest_match outp fs i' m'"
  shows "i = i' \<and> m = m'"
proof -
  have a: "i < length fs" "FindSubmatchIndex (title (fs ! i)) outp = Some m"
    and b: "i' < length fs" "FindSubmatchIndex (title (fs ! i')) outp = Some m'"
    using assms by (simp_all add: earliest_match_def)
  have 1: "hd m \<le> hd m' \<and> (i' < i \<longrightarrow> hd m < hd m')"
    using assms(1) b by (auto simp: earliest_match_def split: option.splits)
  have 2: "hd m' \<le> hd m \<and> (i < i' \<longrightarrow> hd m' < hd m)"
    using assms(2) a by (auto simp: earliest_match_def split: option.splits)
  from 1 2 have "i = i'" by (cases i i' rule: linorder_cases) auto
  with a b show ?thesis by simp
qed

lemma extractDescription_loop_Cons:
  "extractDescription_loop sp outp (f # fs) st =
     (case extractDescription_loop sp outp [f] st of
        Inl e \<Rightarrow> Inl e
      | Inr st' \<Rightarrow> extractDescription_loop sp outp fs st')"
  by (cases st) (simp split: option.splits list.splits sum.splits)

lemma loop_inv_step:
  assumes inv: "loop_inv sp outp ps st"
    and step: "extractDescription_loop sp outp [f] st = Inr st'"
  shows "loop_inv sp outp (ps @ [f]) st'"
proof (cases "FindSubmatchIndex (title f) outp")
  case None
  then have st': "st' = st" using step by (cases st) simp
  from inv [unfolded loop_inv_def] show ?thesis
  proof (elim disjE exE conjE)
    assume "st = (-1, [], [], None)" "\<forall>f \<in> set ps. FindSubmatchIndex (title f) outp = None"
    then show ?thesis
      using None st' by (intro loop_invI1) simp_all
  next
    fix i m args
    assume e: "earliest_match outp ps i m" and r: "0 \<le> hd m" "hd m \<le> int (length outp)"
      and a: "submatch_args outp (drop 2 m) = Inr args"
      and s: "st = (hd m, sp (fmt (ps ! i)) args, drop (nat (hd m)) outp, Some (ps ! i))"
    have "earliest_match outp (ps @ [f]) i m"
      using e None by (auto simp: earliest_match_def nth_append less_Suc_eq)
    moreover have "(ps @ [f]) ! i = ps ! i" using e by (simp add: earliest_match_def nth_append)
    ultimately show ?thesis
      using r a s st' by (intro loop_invI2 [where i = i and m = m and args = args]) simp_all
  qed
next
  case (Some m')
  obtain s d r fm where st: "st = (s, d, r, fm)" by (cases st) auto
  from step Some st obtain m0 ms where m': "m' = m0 # ms" by (cases m') auto
  show ?thesis
  proof (cases "s \<noteq> -1 \<and> s \<le> m0")
    case True
    then have st': "st' = st" using step Some st m' by simp
    from True st inv obtain i m args where e: "earliest_match outp ps i m"
      and r: "0 \<le> hd m" "hd m \<le> int (length outp)"
      and a: "submatch_args outp (drop 2 m) = Inr args"
      and s: "st = (hd m, sp (fmt (ps ! i)) args, drop (nat (hd m)) outp, Some (ps ! i))"
      by (auto simp: loop_inv_def)
    have sm: "hd m \<le> m0" using True s st by simp
    have "earliest_match outp (ps @ [f]) i m"
      using e Some m' sm by (auto simp: earliest_match_def nth_append less_Suc_eq)
    moreover have "(ps @ [f]) ! i = ps ! i" using e by (simp add: earliest_match_def nth_append)
    ultimately show ?thesis
      using r a s st' by (intro loop_invI2 [where i = i and m = m and args = args]) simp_all
  next
    case False
    from step Some st m' False obtain args rep' where
      a: "submatch_args outp (drop 2 m') = Inr args"
      and sf: "slice_from outp m0 = Inr rep'"
      and st': "st' = (m0, sp (fmt f) args, rep', Some f)"
      by (auto split: sum.splits)
    from sf have r: "0 \<le> m0" "m0 \<le> int (length outp)" and rep': "rep' = drop (nat m0) outp"
      by (auto simp: slice_from_def slice_def split: if_splits)
    have lt: "\<forall>j<length ps. case FindSubmatchIndex (title (ps ! j)) outp of
                None \<Rightarrow> True | Some m'' \<Rightarrow> m'' \<noteq> [] \<and> m0 < hd m''"
    proof (intro allI impI)
      fix j assume j: "j < length ps"
      from inv [unfolded loop_inv_def]
      show "case FindSubmatchIndex (title (ps ! j)) outp of
                None \<Rightarrow> True | Some m'' \<Rightarrow> m'' \<noteq> [] \<and> m0 < hd m''"
      proof (elim disjE exE conjE)
        assume "\<forall>f \<in> set ps. FindSubmatchIndex (title f) outp = None"
        then show ?thesis using j by simp
      next
        fix i m args0
        assume e: "earliest_match outp ps i m" and r0: "0 \<le> hd m"
          and s: "st = (hd m, sp (fmt (ps ! i)) args0, drop (nat (hd m)) outp, Some (ps ! i))"
        from s st have "s = hd m" by simp
        with False r0 have "m0 < hd m" by auto
        moreover from e j have "case FindSubmatchIndex (title (ps ! j)) outp of
                None \<Rightarrow> True | Some m'' \<Rightarrow> m'' \<noteq> [] \<and> hd m \<le> hd m''"
          by (auto simp: earliest_match_def split: option.splits)
        ultimately show ?thesis by (auto split: option.splits)
      qed
    qed
    have "earliest_match outp (ps @ [f]) (length ps) m'"
      unfolding earliest_match_def
    proof (intro conjI allI impI)
      fix j assume "j < length (ps @ [f])"
      then consider "j < length ps" | "j = length ps" by fastforce
      then show "case FindSubmatchIndex (title ((ps @ [f]) ! j)) outp of
                None \<Rightarrow> True
              | Some m'' \<Rightarrow> m'' \<noteq> [] \<and> hd m' \<le> hd m'' \<and> (j < length ps \<longrightarrow> hd m' < hd m'')"
      proof cases
        case 1
        with lt m' show ?thesis by (auto simp: nth_append split: option.splits)
      next
        case 2
        with Some m' show ?thesis by simp
      qed
    qed (use Some m' in simp_all)
    then show ?thesis
      using r a st' rep' m' by (intro loop_invI2 [where i = "length ps" and m = m' and args = args]) simp_all
  qed
qed

lemma loop_inv_loop:
  "loop_inv sp outp ps st \<Longrightarrow> extractDescription_loop sp outp fs st = Inr st' \<Longrightarrow>
   loop_inv sp outp (ps @ fs) st'"
proof (induction fs arbitrary: ps st)
  case Nil
  then show ?case by simp
next
  case (Cons f fs)
  from Cons.prems(2) obtain st1 where
    1: "extractDescription_loop sp outp [f] st = Inr st1"
    and 2: "extractDescription_loop sp outp fs st1 = Inr st'"
    by (subst (asm) extractDescription_loop_Cons) (auto split: sum.splits)
  from Cons.IH [OF loop_inv_step [OF Cons.prems(1) 1] 2] show ?case by simp
qed

lemma extractDescription_loop_inv:
  "extractDescription_loop sp outp fs (-1, [], [], None) = Inr st \<Longrightarrow> loop_inv sp outp fs st"
  using loop_inv_loop [of sp outp "[]" "(-1, [], [], None)" fs st]
  by (simp add: loop_inv_def)

lemma valid_pairs_args:
  "valid_pairs (length outp) ms \<Longrightarrow> \<exists>args. submatch_args outp ms = Inr args"
  by (induction outp ms rule: submatch_args.induct) (auto simp: slice_def)

lemma extractDescription_loop_returns:
  "\<forall>f \<in> set fs. \<forall>m. FindSubmatchIndex (title f) outp = Some m \<longrightarrow> wf_match outp m \<Longrightarrow>
   \<exists>st'. extractDescription_loop sp outp fs st = Inr st'"
proof (induction fs arbitrary: st)
  case Nil
  show ?case by (intro exI) simp
next
  case (Cons f fs st)
  obtain s d r fm where st: "st = (s, d, r, fm)" by (cases st) auto
  show ?case
  proof (cases "FindSubmatchIndex (title f) outp")
    case None
    with Cons st show ?thesis by simp
  next
    case (Some m)
    with Cons.prems have wf: "wf_match outp m" by simp
    then obtain m0 ms where m: "m = m0 # ms" by (cases m) (auto simp: wf_match_def)
    from wf obtain args where a: "submatch_args outp (drop 2 m) = Inr args"
      using valid_pairs_args [of outp "drop 2 m"] by (auto simp: wf_match_def)
    from wf m have sf: "slice_from outp m0 = Inr (drop (nat m0) outp)"
      by (simp add: wf_match_def slice_from_def slice_def)
    from Cons.IH Cons.prems have IH: "\<And>st. \<exists>st'. extractDescription_loop sp outp fs st = Inr st'"
      by simp
    show ?thesis using Some st m a sf IH by auto
  qed
qed

lemma extractDescription_returns:
  assumes wf: "\<forall>f \<in> set (formats sig). \<forall>m. FindSubmatchIndex (title f) outp = Some m
                  \<longrightarrow> wf_match outp m"
    and hdr: "sublist (header sig) outp"
  shows "\<exists>res. extractDescription sp outp sig = Inr res"
proof -
  from extractDescription_loop_returns [OF wf]
  obtain st where "extractDescription_loop sp outp (formats sig) (-1, [], [], None) = Inr st"
    by blast
  then show ?thesis
    using extractDescription_fallback_eq [OF hdr]
    by (cases st) (simp add: extractDescription_def extractDescription_untrimmed_def)
qed

lemma extractDescription_cases:
  assumes "extractDescription sp outp sig = Inr (desc, rep, fm)"
  shows "\<exists>s d r raw.
           extractDescription_loop sp outp (formats sig) (-1, [], [], None) = Inr (s, d, r, fm)
           \<and> desc = trim_title raw
           \<and> (d = [] \<longrightarrow> extractDescription_fallback outp (header sig) = Inr (raw, rep))
           \<and> (d \<noteq> [] \<longrightarrow> raw = d \<and> rep = r)"
  using assms
  by (auto simp: extractDescription_def extractDescription_untrimmed_def
           split: sum.splits prod.splits if_splits)


lemmas example_defs = literal_def literal_group_def simple_format_def earliest_match_def
  first_occurrence_def less_Suc_eq numeral_eq_Suc

subsection \<open>extractDescription: the selection of the format\<close>

text \<open>
  Claim C1, as the specification states it, says that for every output and every
  signature the report is the suffix of the output from the smallest match start.
  When the template of the selected format renders to the empty string, the report is
  the suffix from the header instead: here the format matches at offset 0 and the
  report starts at offset 3.
\<close>

theorem earliest_format_wins_counterexample:
  "earliest_match ''ab HDR'' [simple_format (literal ''ab'') ''''] 0 [0, 2]
   \<and> extractDescription Sprintf ''ab HDR''
       \<lparr>header = ''HDR'', formats = [simple_format (literal ''ab'') ''''], suppressions = []\<rparr>
       = Inr (''HDR'', ''HDR'', Some (simple_format (literal ''ab'') ''''))
   \<and> ''HDR'' \<noteq> drop (nat (hd [0, 2])) ''ab HDR''"
  by (simp add: eval_defs example_defs)

text \<open>
  Claim C1, amended. Whenever \<open>extractDescription\<close> returns and some format's title
  pattern matches the output, the format it returns is the matching format with the
  smallest match start offset, the earliest in the order of the formats among those
  with that offset (a later format replaces the current one only with a strictly
  smaller start); and when the title rendered for that format is not empty, the report
  is the suffix of the output from that offset. \<open>extractDescription\<close> does return
  when every match is well formed and the header occurs in the output.
\<close>

theorem earliest_format_wins:
  "(\<forall>desc rep fm.
      extractDescription sp outp sig = Inr (desc, rep, fm)
      \<and> (\<exists>f \<in> set (formats sig). FindSubmatchIndex (title f) outp \<noteq> None) \<longrightarrow>
      (\<exists>i m args. earliest_match outp (formats sig) i m \<and> fm = Some (formats sig ! i)
         \<and> submatch_args outp (drop 2 m) = Inr args
         \<and> (sp (fmt (formats sig ! i)) args \<noteq> [] \<longrightarrow> rep = drop (nat (hd m)) outp)))
   \<and> ((\<forall>f \<in> set (formats sig). \<forall>m. FindSubmatchIndex (title f) outp = Some m
          \<longrightarrow> wf_match outp m)
       \<and> sublist (header sig) outp \<longrightarrow> (\<exists>res. extractDescription sp outp sig = Inr res))"
proof (intro conjI allI impI)
  fix desc rep fm
  assume "extractDescription sp outp sig = Inr (desc, rep, fm)
      \<and> (\<exists>f \<in> set (formats sig). FindSubmatchIndex (title f) outp \<noteq> None)"
  then have ret: "extractDescription sp outp sig = Inr (desc, rep, fm)"
    and some: "\<exists>f \<in> set (formats sig). FindSubmatchIndex (title f) outp \<noteq> None" by auto
  from ret obtain s d r raw where
    loop: "extractDescription_loop sp outp (formats sig) (-1, [], [], None) = Inr (s, d, r, fm)"
    and ne: "d \<noteq> [] \<longrightarrow> raw = d \<and> rep = r"
    using extractDescription_cases by blast
  from extractDescription_loop_inv [OF loop] some
  obtain i m args where e: "earliest_match outp (formats sig) i m"
    and a: "submatch_args outp (drop 2 m) = Inr args"
    and st: "(s, d, r, fm) = (hd m, sp (fmt (formats sig ! i)) args, drop (nat (hd m)) outp,
                Some (formats sig ! i))"
    by (auto simp: loop_inv_def)
  from st ne have "sp (fmt (formats sig ! i)) args \<noteq> [] \<longrightarrow> rep = drop (nat (hd m)) outp"
    by auto
  with e a st
  show "\<exists>i m args. earliest_match outp (formats sig) i m \<and> fm = Some (formats sig ! i)
         \<and> submatch_args outp (drop 2 m) = Inr args
         \<and> (sp (fmt (formats sig ! i)) args \<noteq> [] \<longrightarrow> rep = drop (nat (hd m)) outp)"
    by blast
next
  assume "(\<forall>f \<in> set (formats sig). \<forall>m. FindSubmatchIndex (title f) outp = Some m
          \<longrightarrow> wf_match outp m) \<and> sublist (header sig) outp"
  then show "\<exists>res. extractDescription sp outp sig = Inr res"
    using extractDescription_returns [of sig outp sp] by blast
qed

theorem earliest_format_wins_witness:
  "extractDescription Sprintf ''HDR: bug in foo''
     \<lparr>header = ''HDR'',
      formats = [simple_format (literal ''bug'') ''late'', simple_format (literal ''HDR:'') ''first'',
                 simple_format (literal ''HDR'') ''second''],
      suppressions = []\<rparr>
     = Inr (''first'', ''HDR: bug in foo'', Some (simple_format (literal ''HDR:'') ''first''))
   \<and> earliest_match ''HDR: bug in foo''
       [simple_format (literal ''bug'') ''late'', simple_format (literal ''HDR:'') ''first'',
        simple_format (literal ''HDR'') ''second''] 1 [0, 4]"
proof -
  let ?fs = "[simple_format (literal ''bug'') ''late'', simple_format (literal ''HDR:'') ''first'',
              simple_format (literal ''HDR'') ''second'']"
  let ?sig = "\<lparr>header = ''HDR'', formats = ?fs, suppressions = []\<rparr>"
  let ?out = "''HDR: bug in foo''"
  have h: "extractDescription Sprintf ?out ?sig
             = Inr (''first'', ?out, Some (simple_format (literal ''HDR:'') ''first''))"
    by (simp add: eval_defs example_defs)
  have some: "\<exists>f \<in> set (formats ?sig). FindSubmatchIndex (title f) ?out \<noteq> None"
    by (simp add: example_defs)
  from earliest_format_wins [of Sprintf ?out ?sig] h some
  obtain i m where e: "earliest_match ?out ?fs i m"
    and "Some (simple_format (literal ''HDR:'') ''first'') = Some (?fs ! i)"
    by auto
  have e1: "earliest_match ?out ?fs 1 [0, 4]" by (simp add: example_defs)
  from earliest_match_unique [OF e e1] e h show ?thesis by simp
qed



subsection \<open>extractDescription: the final steps\<close>

text \<open>
  Claim C7. A title that \<open>extractDescription\<close> returns has at most 180 bytes; when the
  rendered or fallback title has more than 180 bytes, the returned title is its first
  180 bytes.
\<close>

theorem title_at_most_180:
  assumes "extractDescription sp outp sig = Inr (desc, rep, f)"
  shows "length desc \<le> 180
       \<and> (\<exists>raw. extractDescription_untrimmed sp outp sig = Inr (raw, rep, f)
             \<and> (180 < length raw \<longrightarrow> desc = take 180 raw \<and> length desc = 180))"
proof -
  from assms obtain raw where raw: "extractDescription_untrimmed sp outp sig = Inr (raw, rep, f)"
    and desc: "desc = trim_title raw"
    by (auto simp: extractDescription_def split: sum.splits)
  show ?thesis using raw desc length_trim_title [of raw] trim_title_long [of raw] by auto
qed

theorem title_at_most_180_witness:
  "extractDescription (\<lambda>f a. f) (''HDR'' @ replicate 200 (CHR ''a''))
       \<lparr>header = ''HDR'', formats = [], suppressions = []\<rparr>
       = Inr (''HDR'' @ replicate 177 (CHR ''a''), ''HDR'' @ replicate 200 (CHR ''a''), None)
   \<and> length (''HDR'' @ replicate 177 (CHR ''a'')) \<le> 180"
proof -
  let ?sig = "\<lparr>header = ''HDR'', formats = [], suppressions = []\<rparr>"
  let ?out = "''HDR'' @ replicate 200 (CHR ''a'')"
  have sub: "sublist ''HDR'' ?out" by simp
  have idx: "Index ?out ''HDR'' = 0" by simp
  have u: "extractDescription_untrimmed (\<lambda>f a. f) ?out ?sig = Inr (?out, ?out, None)"
    using extractDescription_fallback_eq [OF sub] idx
    by (simp add: extractDescription_untrimmed_def NL_def)
  have t: "trim_title ?out = ''HDR'' @ replicate 177 (CHR ''a'')"
    by (simp add: trim_title_def maxDescLen_def CR_def nth_append)
  have h: "extractDescription (\<lambda>f a. f) ?out ?sig
             = Inr (''HDR'' @ replicate 177 (CHR ''a''), ?out, None)"
    using u t by (simp add: extractDescription_def)
  from title_at_most_180 [OF h] have "length (''HDR'' @ replicate 177 (CHR ''a'')) \<le> 180"
    by blast
  with h show ?thesis by blast
qed

text \<open>
  Claim C6, as the specification states it, says that no returned title ends with
  \<open>'\r'\<close>. Only one trailing \<open>'\r'\<close> is dropped, and it is dropped before the title is
  cut: a header line that ends with two gives a title that ends with one, and a line
  of more than 180 bytes whose byte 179 is \<open>'\r'\<close> gives a title that ends with it.
\<close>

theorem title_trailing_CR_counterexample:
  "extractDescription (\<lambda>f a. f) (''HDR'' @ [CR, CR, NL] @ ''next'')
     \<lparr>header = ''HDR'', formats = [], suppressions = []\<rparr>
     = Inr (''HDR'' @ [CR], ''HDR'' @ [CR, CR, NL] @ ''next'', None)
   \<and> last (''HDR'' @ [CR]) = CR
   \<and> extractDescription (\<lambda>f a. f) (''HDR'' @ replicate 176 (CHR ''a'') @ [CR] @ ''bc'')
     \<lparr>header = ''HDR'', formats = [], suppressions = []\<rparr>
     = Inr (''HDR'' @ replicate 176 (CHR ''a'') @ [CR],
            ''HDR'' @ replicate 176 (CHR ''a'') @ [CR] @ ''bc'', None)
   \<and> last (''HDR'' @ replicate 176 (CHR ''a'') @ [CR]) = CR"
proof -
  let ?sig = "\<lparr>header = ''HDR'', formats = [], suppressions = []\<rparr>"
  let ?out = "''HDR'' @ replicate 176 (CHR ''a'') @ [CR] @ ''bc''"
  have short: "extractDescription (\<lambda>f a. f) (''HDR'' @ [CR, CR, NL] @ ''next'') ?sig
                 = Inr (''HDR'' @ [CR], ''HDR'' @ [CR, CR, NL] @ ''next'', None)"
    by (simp add: eval_defs)
  have sub: "sublist ''HDR'' ?out" by simp
  have idx: "Index ?out ''HDR'' = 0" by simp
  have nl: "takeWhile (\<lambda>c. c \<noteq> NL) ?out = ?out" by (simp add: NL_def CR_def)
  have u: "extractDescription_untrimmed (\<lambda>f a. f) ?out ?sig = Inr (?out, ?out, None)"
    using extractDescription_fallback_eq [OF sub] idx nl
    by (simp add: extractDescription_untrimmed_def)
  have "trim_title ?out = take 180 ?out" by (rule trim_title_long) simp
  then have t: "trim_title ?out = ''HDR'' @ replicate 176 (CHR ''a'') @ [CR]" by simp
  have long: "extractDescription (\<lambda>f a. f) ?out ?sig
                = Inr (''HDR'' @ replicate 176 (CHR ''a'') @ [CR], ?out, None)"
    using u t by (simp add: extractDescription_def)
  show ?thesis using short long by simp
qed

text \<open>
  Claim C6, amended. The returned title is the rendered or fallback title with one
  trailing \<open>'\r'\<close> dropped and then cut to 180 bytes. It ends with \<open>'\r'\<close> in exactly two
  cases: the rendered or fallback title has at most 180 bytes and ends with two \<open>'\r'\<close>
  bytes, or it has more than 180 bytes and its byte 179 is \<open>'\r'\<close>. In every other case
  the returned title does not end with \<open>'\r'\<close>.
\<close>

theorem title_trailing_CR:
  assumes "extractDescription sp outp sig = Inr (desc, rep, f)"
  shows "\<exists>raw. extractDescription_untrimmed sp outp sig = Inr (raw, rep, f)
           \<and> desc = trim_title raw
           \<and> ((desc \<noteq> [] \<and> last desc = CR)
                \<longleftrightarrow> (if 180 < length raw then raw ! 179 = CR else suffix [CR, CR] raw))"
proof -
  from assms obtain raw where raw: "extractDescription_untrimmed sp outp sig = Inr (raw, rep, f)"
    and desc: "desc = trim_title raw"
    by (auto simp: extractDescription_def split: sum.splits)
  show ?thesis using raw desc trim_title_CR_iff [of raw] by blast
qed

theorem title_trailing_CR_witness:
  "extractDescription_untrimmed (\<lambda>f a. f) (''HDR y'' @ [CR, NL] @ ''z'')
     \<lparr>header = ''HDR'', formats = [], suppressions = []\<rparr>
     = Inr (''HDR y'' @ [CR], ''HDR y'' @ [CR, NL] @ ''z'', None)
   \<and> extractDescription (\<lambda>f a. f) (''HDR y'' @ [CR, NL] @ ''z'')
     \<lparr>header = ''HDR'', formats = [], suppressions = []\<rparr>
     = Inr (''HDR y'', ''HDR y'' @ [CR, NL] @ ''z'', None)
   \<and> last ''HDR y'' \<noteq> CR
   \<and> extractDescription (\<lambda>f a. f) (''HDR'' @ replicate 200 (CHR ''a''))
     \<lparr>header = ''HDR'', formats = [], suppressions = []\<rparr>
     = Inr (''HDR'' @ replicate 177 (CHR ''a''), ''HDR'' @ replicate 200 (CHR ''a''), None)
   \<and> last (''HDR'' @ replicate 177 (CHR ''a'')) \<noteq> CR"
proof -
  let ?sig = "\<lparr>header = ''HDR'', formats = [], suppressions = []\<rparr>"
  let ?out = "''HDR y'' @ [CR, NL] @ ''z''"
  let ?long = "''HDR'' @ replicate 200 (CHR ''a'')"
  let ?cut = "''HDR'' @ replicate 177 (CHR ''a'')"
  have h: "extractDescription (\<lambda>f a. f) ?out ?sig = Inr (''HDR y'', ?out, None)"
    by (simp add: eval_defs)
  have u: "extractDescription_untrimmed (\<lambda>f a. f) ?out ?sig = Inr (''HDR y'' @ [CR], ?out, None)"
    by (simp add: extractDescription_untrimmed_def extractDescription_fallback_def
          slice_def slice_from_def NL_def CR_def Let_def)
  from title_trailing_CR [OF h] obtain raw
    where r: "extractDescription_untrimmed (\<lambda>f a. f) ?out ?sig = Inr (raw, ?out, None)"
      and iff: "(''HDR y'' \<noteq> [] \<and> last ''HDR y'' = CR)
                  \<longleftrightarrow> (if 180 < length raw then raw ! 179 = CR else suffix [CR, CR] raw)"
    by blast
  from r u have "raw = ''HDR y'' @ [CR]" by simp
  with iff have a: "last ''HDR y'' \<noteq> CR" by (simp add: suffix_def CR_def)
  have sub: "sublist ''HDR'' ?long" by simp
  have idx: "Index ?long ''HDR'' = 0" by simp
  have ul: "extractDescription_untrimmed (\<lambda>f a. f) ?long ?sig = Inr (?long, ?long, None)"
    using extractDescription_fallback_eq [OF sub] idx
    by (simp add: extractDescription_untrimmed_def NL_def)
  have t: "trim_title ?long = ?cut"
    by (simp add: trim_title_def maxDescLen_def CR_def nth_append)
  have hl: "extractDescription (\<lambda>f a. f) ?long ?sig = Inr (?cut, ?long, None)"
    using ul t by (simp add: extractDescription_def)
  from title_trailing_CR [OF hl] obtain raw'
    where r': "extractDescription_untrimmed (\<lambda>f a. f) ?long ?sig = Inr (raw', ?long, None)"
      and iff': "(?cut \<noteq> [] \<and> last ?cut = CR)
                  \<longleftrightarrow> (if 180 < length raw' then raw' ! 179 = CR else suffix [CR, CR] raw')"
    by blast
  from r' ul have "raw' = ?long" by simp
  with iff' have "\<not> (?cut \<noteq> [] \<and> last ?cut = CR)" by (simp add: nth_append CR_def)
  then have b: "last ?cut \<noteq> CR" by simp
  show ?thesis using h u a hl b by blast
qed

subsection \<open>Facts about writes to memory\<close>

lemma length_mem_write: "p + length bs \<le> length mem \<Longrightarrow> length (mem_write mem p bs) = length mem"
  by (simp add: mem_write_def)

lemma mem_write_same: "mem_write mem p (take n (drop p mem)) = mem"
proof -
  have "take p mem @ take n (drop p mem) @ drop (p + min (length mem - p) n) mem = mem"
  proof (cases "n \<le> length mem - p")
    case True
    then have "take n (drop p mem) @ drop (p + n) mem = drop p mem"
      by (metis append_take_drop_id drop_drop add.commute)
    with True show ?thesis by (simp add: min_def)
  next
    case False
    then show ?thesis by (simp add: min_def)
  qed
  then show ?thesis by (simp add: mem_write_def)
qed

lemma mem_write_offset:
  "P \<le> length mem \<Longrightarrow> mem_write mem (P + q) bs = take P mem @ mem_write (drop P mem) q bs"
  by (simp add: mem_write_def take_add ac_simps)

lemma two_writes_0:
  assumes "s \<le> e" and "e \<le> L" and "L \<le> length X" and "s + W + (L - e) \<le> length X"
    and "length d3 = W"
  shows "take (s + W + (L - e)) (mem_write (mem_write X (s + W) (drop e (take L X))) s d3)
           = take s (take L X) @ d3 @ drop e (take L X)"
proof -
  define D where "D = drop e (take L X)"
  define R where "R = drop (s + W + (L - e)) X"
  define A where "A = take s X"
  define B where "B = take W (drop s X)"
  have lD: "length D = L - e" using assms by (simp add: D_def)
  have lA: "length A = s" using assms by (simp add: A_def)
  have lB: "length B = W" using assms by (simp add: B_def)
  have AB: "take (s + W) X = A @ B" by (simp add: A_def B_def take_add)
  have Y: "mem_write X (s + W) D = A @ B @ D @ R"
    by (simp add: mem_write_def lD AB R_def)
  have "mem_write (A @ B @ D @ R) s d3 = A @ d3 @ D @ R"
    using lA lB assms(5) by (simp add: mem_write_def)
  then have "take (s + W + (L - e)) (mem_write (mem_write X (s + W) D) s d3) = A @ d3 @ D"
    using Y lA lD assms(5) by simp
  moreover have "take s (take L X) = A" using assms by (simp add: A_def min_def)
  ultimately show ?thesis by (simp add: D_def)
qed


lemma two_writes:
  assumes "s \<le> e" and "e \<le> L" and "P + L \<le> length m"
    and "P + (s + W + (L - e)) \<le> length m" and "length d3 = W"
  shows "take (s + W + (L - e))
           (drop P (mem_write (mem_write m (P + (s + W)) (drop e (take L (drop P m)))) (P + s) d3))
         = take s (take L (drop P m)) @ d3 @ drop e (take L (drop P m))"
proof -
  define D where "D = drop e (take L (drop P m))"
  define X where "X = drop P m"
  have P: "P \<le> length m" using assms by simp
  have w1: "mem_write m (P + (s + W)) D = take P m @ mem_write X (s + W) D"
    using mem_write_offset [OF P] by (simp add: X_def)
  have lP: "length (take P m) = P" using P by simp
  have "mem_write (take P m @ mem_write X (s + W) D) (P + s) d3
          = take P m @ mem_write (mem_write X (s + W) D) s d3"
    using mem_write_offset [of P "take P m @ mem_write X (s + W) D" s d3] lP by simp
  then have "drop P (mem_write (mem_write m (P + (s + W)) D) (P + s) d3)
          = mem_write (mem_write X (s + W) D) s d3"
    using w1 lP by simp
  moreover have "take (s + W + (L - e)) (mem_write (mem_write X (s + W) (drop e (take L X))) s d3)
           = take s (take L X) @ d3 @ drop e (take L X)"
    using assms by (intro two_writes_0) (simp_all add: X_def)
  ultimately show ?thesis by (simp add: D_def X_def)
qed

lemma mem_write_above:
  assumes "P + L \<le> p" and "p \<le> length mem"
  shows "take L (drop P (mem_write mem p bs)) = take L (drop P mem)"
proof -
  have "P \<le> length (take p mem)" and "L \<le> length (drop P (take p mem))"
    using assms by simp_all
  then have "take L (drop P (mem_write mem p bs)) = take L (drop P (take p mem))"
    by (simp add: mem_write_def)
  also have "\<dots> = take L (take (p - P) (drop P mem))" by (simp add: drop_take)
  also have "\<dots> = take L (drop P mem)" using assms by (simp add: min_def)
  finally show ?thesis .
qed

lemma contents_mem_write_disjoint:
  assumes "p + length bs \<le> length mem"
    and "base w + len w \<le> p \<or> p + length bs \<le> base w"
  shows "contents (mem_write mem p bs) w = contents mem w"
  using assms(2)
proof
  assume "base w + len w \<le> p"
  then show ?thesis
    using assms(1) mem_write_above [of "base w" "len w" p mem bs] by (simp add: contents_def)
next
  assume a: "p + length bs \<le> base w"
  then have "drop (base w) (mem_write mem p bs) = drop (base w) mem"
    using assms(1) by (simp add: mem_write_def)
  then show ?thesis by (simp add: contents_def)
qed

lemma copy_copy:
  assumes se: "s \<le> e" and eL: "e \<le> L" and old: "P + L \<le> length m"
    and new: "P + (s + W + (L - e)) \<le> length m"
    and dst: "base dst = P + (s + W)" and src: "base src = P + e"
    and n: "min (len dst) (len src) = L - e" and srcv: "base src + len src \<le> length m"
    and dst': "base dst' = P + s" "W \<le> len dst'"
    and what: "len what = W" "base what + W \<le> length m"
  shows "length (go_copy (go_copy m dst src) dst' what) = length m
       \<and> take (s + W + (L - e)) (drop P (go_copy (go_copy m dst src) dst' what))
           = take s (take L (drop P m)) @ contents (go_copy m dst src) what
             @ drop e (take L (drop P m))
       \<and> length (contents (go_copy m dst src) what) = W
       \<and> (base what + W \<le> P + (s + W) \<or> P + (s + W + (L - e)) \<le> base what
            \<longrightarrow> contents (go_copy m dst src) what = contents m what)"
proof -
  have d: "take (L - e) (contents m src) = drop e (take L (drop P m))"
  proof -
    have "L - e \<le> len src" using n by (simp add: min_def split: if_splits)
    then have "take (L - e) (contents m src) = take (L - e) (drop (P + e) m)"
      by (simp add: contents_def src min_def)
    also have "\<dots> = drop e (take L (drop P m))"
      by (simp add: drop_take add.commute)
    finally show ?thesis .
  qed
  define M2 where "M2 = go_copy m dst src"
  have m2: "M2 = mem_write m (P + (s + W)) (drop e (take L (drop P m)))"
    by (simp add: M2_def go_copy_def n d dst)
  have l2: "length M2 = length m"
    unfolding m2 using new eL old by (intro length_mem_write) simp
  have lw: "length (contents M2 what) = W"
    using what l2 by (simp add: contents_def)
  have m3: "go_copy M2 dst' what = mem_write M2 (P + s) (contents M2 what)"
    using dst' what lw by (simp add: go_copy_def min_def contents_def)
  have l3: "length (go_copy M2 dst' what) = length m"
    unfolding m3 using l2 lw new by (simp add: length_mem_write)
  have "take (s + W + (L - e)) (drop P (mem_write M2 (P + s) (contents M2 what)))
          = take s (take L (drop P m)) @ contents M2 what @ drop e (take L (drop P m))"
    using two_writes [OF se eL old new lw] by (simp only: m2 [symmetric])
  then have "take (s + W + (L - e)) (drop P (go_copy M2 dst' what))
          = take s (take L (drop P m)) @ contents M2 what @ drop e (take L (drop P m))"
    by (simp only: m3)
  moreover have "contents M2 what = contents m what"
    if "base what + W \<le> P + (s + W) \<or> P + (s + W + (L - e)) \<le> base what"
    unfolding m2 using that new eL what(1)
    by (intro contents_mem_write_disjoint) auto
  ultimately show ?thesis using l3 lw by (simp only: M2_def) blast
qed


lemma replace_general:
  assumes v1: "valid_slice mem buf" and v2: "valid_slice mem what"
    and r: "0 \<le> start" "start \<le> end" "end \<le> int (len buf)"
  shows "\<exists>mem' buf'. replace spare mem buf start end what = Inr (mem', buf')
           \<and> valid_slice mem' buf'
           \<and> (\<exists>mid. length mid = len what
                 \<and> contents mem' buf'
                     = take (nat start) (contents mem buf) @ mid @ drop (nat end) (contents mem buf)
                 \<and> (base what + len what \<le> base buf \<or> base buf + cap buf \<le> base what
                      \<longrightarrow> mid = contents mem what))"
proof -
  define D where "D \<longleftrightarrow> base what + len what \<le> base buf \<or> base buf + cap buf \<le> base what"
  define s where "s = nat start"
  define e where "e = nat end"
  define L where "L = len buf"
  define W where "W = len what"
  define P where "P = base buf"
  have se: "s \<le> e" and eL: "e \<le> L" using r by (simp_all add: s_def e_def L_def)
  have st: "start = int s" and en: "end = int e" using r by (simp_all add: s_def e_def)
  have b: "L \<le> cap buf" "P + cap buf \<le> length mem"
    using v1 by (simp_all add: valid_slice_def L_def P_def)
  have w: "W \<le> cap what" "base what + cap what \<le> length mem"
    using v2 by (simp_all add: valid_slice_def W_def)
  have old: "contents mem buf = take L (drop P mem)" by (simp add: contents_def L_def P_def)
  show ?thesis
  proof (cases "end - start \<le> int (len what)")
    case True
    then have k: "e - s \<le> W" using se by (simp add: st en W_def)
    define L1 where "L1 = s + W + (L - e)"
    have L1: "L + (W - (e - s)) = L1" using se eL k by (simp add: L1_def)
    define tail where
      "tail = \<lparr>base = base what + (e - s), len = W - (e - s), cap = cap what - (e - s)\<rparr>"
    have tl: "reslice_from what (end - start) = Inr tail"
      using se k w
      by (simp add: reslice_from_def reslice_def st en tail_def W_def [symmetric]
            nat_diff_distrib')
    have ltail: "length (contents mem tail) = W - (e - s)"
      using w k by (simp add: contents_def tail_def)
    obtain m1 buf1 where ap: "go_append spare mem buf tail = (m1, buf1)" by (cases "go_append spare mem buf tail")
    have A: "base buf1 + L \<le> length m1 \<and> len buf1 = L1 \<and> len buf1 \<le> cap buf1
             \<and> base buf1 + cap buf1 \<le> length m1 \<and> length mem \<le> length m1
             \<and> take L (drop (base buf1) m1) = take L (drop P mem)
             \<and> (D \<longrightarrow> contents m1 what = contents mem what
                    \<and> (base what + W \<le> base buf1 + (s + W) \<or> base buf1 + L1 \<le> base what))"
    proof (cases "len buf + len tail \<le> cap buf")
      case True
      then have fit: "L1 \<le> cap buf" using L1 by (simp add: tail_def L_def)
      from True ap have m1: "m1 = mem_write mem (P + L) (contents mem tail)"
        and b1: "buf1 = buf\<lparr>len := L + (W - (e - s))\<rparr>"
        by (auto simp: go_append_def P_def L_def tail_def)
      have lm: "length m1 = length mem"
        unfolding m1 using ltail b fit L1 by (intro length_mem_write) simp
      have "take L (drop P m1) = take L (drop P mem)"
        unfolding m1 using b by (intro mem_write_above) simp_all
      moreover have "contents m1 what = contents mem what" if D
        unfolding m1 using that ltail b fit L1
        by (intro contents_mem_write_disjoint) (auto simp: D_def P_def W_def)
      moreover have "base what + W \<le> P + (s + W) \<or> P + L1 \<le> base what" if D
        using that fit by (auto simp: D_def P_def W_def)
      ultimately show ?thesis using b1 lm b fit L1 by (simp add: P_def)
    next
      case False
      with ap have m1: "m1 = mem @ contents mem buf @ contents mem tail @ replicate spare (CHR 0x00)"
        and b1: "buf1 = \<lparr>base = length mem, len = L + (W - (e - s)), cap = L + (W - (e - s)) + spare\<rparr>"
        by (auto simp: go_append_def L_def tail_def)
      have lb: "length (contents mem buf) = L" using b by (simp add: old)
      have "contents m1 what = contents mem what"
        using w by (simp add: m1 contents_def W_def)
      moreover have "base what + W \<le> length mem + (s + W)" using w by simp
      ultimately show ?thesis using b1 lb ltail L1 by (simp add: m1 old)
    qed
    then have A1: "base buf1 + L \<le> length m1" and A2: "len buf1 = L1"
      and A3: "len buf1 \<le> cap buf1" and A4: "base buf1 + cap buf1 \<le> length m1"
      and A5: "length mem \<le> length m1"
      and A6: "take L (drop (base buf1) m1) = take L (drop P mem)"
      and A7: "D \<longrightarrow> contents m1 what = contents mem what
                 \<and> (base what + W \<le> base buf1 + (s + W) \<or> base buf1 + L1 \<le> base what)"
      by blast+
    define dst where "dst = \<lparr>base = base buf1 + (s + W), len = L1 - (s + W), cap = cap buf1 - (s + W)\<rparr>"
    define src where "src = \<lparr>base = base buf1 + e, len = L1 - e, cap = cap buf1 - e\<rparr>"
    define dst' where "dst' = \<lparr>base = base buf1 + s, len = L1 - s, cap = cap buf1 - s\<rparr>"
    have eL1: "e \<le> L1" using se eL k by (simp add: L1_def)
    have r1: "reslice_from buf1 (start + int (len what)) = Inr dst"
      using A2 A3
      by (simp add: reslice_from_def reslice_def st W_def [symmetric] dst_def L1_def
            nat_add_distrib nat_diff_distrib' flip: of_nat_add of_nat_diff)
    have r2: "reslice_from buf1 end = Inr src"
      using A2 A3 eL1
      by (simp add: reslice_from_def reslice_def en src_def nat_diff_distrib'
            flip: of_nat_diff)
    have r3: "reslice_from buf1 start = Inr dst'"
      using A2 A3
      by (simp add: reslice_from_def reslice_def st dst'_def L1_def nat_diff_distrib'
            flip: of_nat_diff)
    have rep: "replace spare mem buf start end what
                 = Inr (go_copy (go_copy m1 dst src) dst' what, buf1)"
      using True tl ap r1 r2 r3 by (simp add: replace_def)
    have new: "base buf1 + (s + W + (L - e)) \<le> length m1"
      using A2 A3 A4 by (simp add: L1_def)
    have cc: "length (go_copy (go_copy m1 dst src) dst' what) = length m1
       \<and> take (s + W + (L - e)) (drop (base buf1) (go_copy (go_copy m1 dst src) dst' what))
           = take s (take L (drop (base buf1) m1)) @ contents (go_copy m1 dst src) what
             @ drop e (take L (drop (base buf1) m1))
       \<and> length (contents (go_copy m1 dst src) what) = W
       \<and> (base what + W \<le> base buf1 + (s + W) \<or> base buf1 + (s + W + (L - e)) \<le> base what
            \<longrightarrow> contents (go_copy m1 dst src) what = contents m1 what)"
    proof (rule copy_copy [OF se eL A1 new])
      show "base dst = base buf1 + (s + W)" by (simp add: dst_def)
      show "base src = base buf1 + e" by (simp add: src_def)
      show "min (len dst) (len src) = L - e"
        using se eL k by (simp add: dst_def src_def L1_def min_def)
      show "base src + len src \<le> length m1"
        using eL1 A2 A3 A4 by (simp add: src_def)
      show "base dst' = base buf1 + s" by (simp add: dst'_def)
      show "W \<le> len dst'" by (simp add: dst'_def L1_def)
      show "len what = W" by (simp add: W_def)
      show "base what + W \<le> length m1" using w A5 by simp
    qed
    have "valid_slice (go_copy (go_copy m1 dst src) dst' what) buf1"
      using cc A3 A4 by (simp add: valid_slice_def)
    moreover have "contents (go_copy (go_copy m1 dst src) dst' what) buf1
        = take (nat start) (contents mem buf) @ contents (go_copy m1 dst src) what
          @ drop (nat end) (contents mem buf)"
    proof -
      have "contents (go_copy (go_copy m1 dst src) dst' what) buf1
              = take L1 (drop (base buf1) (go_copy (go_copy m1 dst src) dst' what))"
        by (simp add: contents_def A2)
      with cc A6 show ?thesis by (simp add: L1_def old s_def e_def)
    qed
    moreover have "contents (go_copy m1 dst src) what = contents mem what" if D
      using that cc A7 by (auto simp: L1_def)
    ultimately show ?thesis using rep cc by (auto simp: W_def D_def)
  next
    case False
    then have k: "W < e - s" by (simp add: st en W_def)
    define L1 where "L1 = s + W + (L - e)"
    have L1: "L - (e - s - W) = L1" using se eL k by (simp add: L1_def)
    define dst where "dst = \<lparr>base = P + (s + W), len = L - (s + W), cap = cap buf - (s + W)\<rparr>"
    define src where "src = \<lparr>base = P + e, len = L - e, cap = cap buf - e\<rparr>"
    define buf1 where "buf1 = \<lparr>base = P, len = L1, cap = cap buf\<rparr>"
    define dst' where "dst' = \<lparr>base = P + s, len = L1 - s, cap = cap buf - s\<rparr>"
    have r1: "reslice_from buf (start + int (len what)) = Inr dst"
      using b se eL k
      by (simp add: reslice_from_def reslice_def st W_def [symmetric] L_def [symmetric]
            P_def [symmetric] dst_def nat_add_distrib nat_diff_distrib'
            flip: of_nat_add of_nat_diff)
    have r2: "reslice_from buf end = Inr src"
      using b eL
      by (simp add: reslice_from_def reslice_def en L_def [symmetric] P_def [symmetric]
            src_def nat_diff_distrib' flip: of_nat_diff)
    have hi: "int (len buf) - (end - start - int (len what)) = int L1"
      using se eL k by (simp add: st en W_def [symmetric] L_def [symmetric] L1_def)
    have L1L: "L1 \<le> L" using se eL k by (simp add: L1_def)
    have r3: "reslice_to buf (int (len buf) - (end - start - int (len what))) = Inr buf1"
      unfolding hi using L1L b by (simp add: reslice_to_def reslice_def buf1_def P_def)
    have r4: "reslice_from buf1 start = Inr dst'"
      using L1L b
      by (simp add: reslice_from_def reslice_def st buf1_def dst'_def L1_def
            nat_diff_distrib' flip: of_nat_diff)
    have rep: "replace spare mem buf start end what
                 = Inr (go_copy (go_copy mem dst src) dst' what, buf1)"
      using False r1 r2 r3 r4 by (simp add: replace_def)
    have oldm: "P + L \<le> length mem" using b by simp
    have new: "P + (s + W + (L - e)) \<le> length mem" using L1L b by (simp add: L1_def)
    have cc: "length (go_copy (go_copy mem dst src) dst' what) = length mem
       \<and> take (s + W + (L - e)) (drop P (go_copy (go_copy mem dst src) dst' what))
           = take s (take L (drop P mem)) @ contents (go_copy mem dst src) what
             @ drop e (take L (drop P mem))
       \<and> length (contents (go_copy mem dst src) what) = W
       \<and> (base what + W \<le> P + (s + W) \<or> P + (s + W + (L - e)) \<le> base what
            \<longrightarrow> contents (go_copy mem dst src) what = contents mem what)"
    proof (rule copy_copy [OF se eL oldm new])
      show "base dst = P + (s + W)" by (simp add: dst_def)
      show "base src = P + e" by (simp add: src_def)
      show "min (len dst) (len src) = L - e"
        using se eL k by (simp add: dst_def src_def min_def)
      show "base src + len src \<le> length mem" using eL b by (simp add: src_def)
      show "base dst' = P + s" by (simp add: dst'_def)
      show "W \<le> len dst'" by (simp add: dst'_def L1_def)
      show "len what = W" by (simp add: W_def)
      show "base what + W \<le> length mem" using w by simp
    qed
    have "valid_slice (go_copy (go_copy mem dst src) dst' what) buf1"
      using cc L1L b by (simp add: valid_slice_def buf1_def)
    moreover have "contents (go_copy (go_copy mem dst src) dst' what) buf1
        = take (nat start) (contents mem buf) @ contents (go_copy mem dst src) what
          @ drop (nat end) (contents mem buf)"
    proof -
      have "contents (go_copy (go_copy mem dst src) dst' what) buf1
              = take L1 (drop P (go_copy (go_copy mem dst src) dst' what))"
        by (simp add: contents_def buf1_def)
      with cc show ?thesis by (simp add: L1_def old s_def e_def)
    qed
    moreover have "contents (go_copy mem dst src) what = contents mem what" if D
    proof -
      have "base what + W \<le> P + (s + W) \<or> P + (s + W + (L - e)) \<le> base what"
        using that L1L b by (auto simp: D_def P_def W_def L1_def)
      with cc show ?thesis by blast
    qed
    ultimately show ?thesis using rep cc by (auto simp: W_def D_def)
  qed
qed

lemma go_copy_same:
  "base src = base dst \<Longrightarrow> go_copy mem dst src = mem"
  using mem_write_same [of mem "base dst" "min (min (len dst) (len src)) (len src)"]
  by (simp add: go_copy_def contents_def)

lemma replace_splices:
  assumes "valid_slice mem buf" and "valid_slice mem what"
    and "0 \<le> start" and "start \<le> end" and "end \<le> int (len buf)"
    and "base what + len what \<le> base buf \<or> base buf + cap buf \<le> base what"
  shows "\<exists>mem' buf'. replace spare mem buf start end what = Inr (mem', buf')
           \<and> contents mem' buf'
               = take (nat start) (contents mem buf) @ contents mem what
                 @ drop (nat end) (contents mem buf)"
  using replace_general [OF assms(1-5), of spare] assms(6) by blast

lemma take_mid_drop:
  assumes "s \<le> e"
  shows "take s xs @ take (e - s) (drop s xs) @ drop e xs = xs"
proof -
  have "take e xs = take s xs @ take (e - s) (drop s xs)"
    using assms take_add [of s "e - s" xs] by simp
  then show ?thesis using append_take_drop_id [of e xs] by simp
qed

lemma replace_with_copy_of_range:
  assumes "valid_slice mem buf" and "valid_slice mem what"
    and "0 \<le> start" and "start \<le> end" and "end \<le> int (len buf)"
    and "base what + len what \<le> base buf \<or> base buf + cap buf \<le> base what"
    and "slice (contents mem buf) start end = Inr (contents mem what)"
  shows "\<exists>mem' buf'. replace spare mem buf start end what = Inr (mem', buf')
           \<and> contents mem' buf' = contents mem buf"
proof -
  from replace_splices [OF assms(1-6), of spare] obtain mem' buf' where
    rep: "replace spare mem buf start end what = Inr (mem', buf')"
    and c: "contents mem' buf'
              = take (nat start) (contents mem buf) @ contents mem what
                @ drop (nat end) (contents mem buf)"
    by blast
  have w: "contents mem what = take (nat end - nat start) (drop (nat start) (contents mem buf))"
    using assms(7) by (simp add: slice_def nat_diff_distrib' drop_take split: if_splits)
  have "nat start \<le> nat end" using assms by simp
  then have "contents mem' buf' = contents mem buf"
    unfolding c w by (rule take_mid_drop)
  with rep show ?thesis by blast
qed

lemmas replace_defs = replace_def reslice_from_def reslice_to_def reslice_def go_append_def
  go_copy_def mem_write_def contents_def

lemma splice_facts:
  assumes "s \<le> e" and "e \<le> length xs"
  shows "take s (take s xs @ mid @ drop e xs) = take s xs"
    and "drop (s + length mid) (take s xs @ mid @ drop e xs) = drop e xs"
    and "length (take s xs @ mid @ drop e xs) = length xs - (e - s) + length mid"
proof -
  have m: "min (length xs) s = s" using assms by simp
  show "take s (take s xs @ mid @ drop e xs) = take s xs" by (simp add: m)
  show "drop (s + length mid) (take s xs @ mid @ drop e xs) = drop e xs" by (simp add: m)
  show "length (take s xs @ mid @ drop e xs) = length xs - (e - s) + length mid"
    using assms by (simp add: m)
qed

subsection \<open>replace\<close>

text \<open>
  Claim C4. For every buffer, every range with \<open>0 \<le> start \<le> end \<le> len(buf)\<close> and every
  replacement (shorter than, as long as, or longer than the range), \<open>replace\<close> returns, and
  the buffer it returns has the first \<open>start\<close> bytes of the old one, has the bytes of the
  old one from \<open>end\<close> on at the positions from \<open>start + len(what)\<close> on, and has the length
  \<open>len(buf) - (end - start) + len(what)\<close>. This holds whatever memory the replacement
  shares with the buffer, whether or not \<open>append\<close> moves the buffer, and for every capacity
  of a new array. (The bytes in between are those of the replacement when it does not
  overlap the array of the buffer: lemma \<open>replace_splices\<close>.)
\<close>

theorem replace_preserves_outside:
  assumes "valid_slice mem buf" and "valid_slice mem what"
    and "0 \<le> start" and "start \<le> end" and "end \<le> int (len buf)"
  shows "\<exists>mem' buf'. replace spare mem buf start end what = Inr (mem', buf')
           \<and> take (nat start) (contents mem' buf') = take (nat start) (contents mem buf)
           \<and> drop (nat start + len what) (contents mem' buf') = drop (nat end) (contents mem buf)
           \<and> length (contents mem' buf') = len buf - (nat end - nat start) + len what"
proof -
  from replace_general [OF assms, of spare] obtain mem' buf' mid where
    rep: "replace spare mem buf start end what = Inr (mem', buf')"
    and mid: "length mid = len what"
    and c: "contents mem' buf'
              = take (nat start) (contents mem buf) @ mid @ drop (nat end) (contents mem buf)"
    by blast
  have l: "length (contents mem buf) = len buf"
    using assms(1) by (auto simp add: contents_def valid_slice_def)
  have s: "nat start \<le> nat end" "nat end \<le> length (contents mem buf)"
    using assms l by simp_all
  note f = splice_facts [OF s, of mid, folded c, unfolded mid l]
  show ?thesis using rep f by blast
qed

theorem replace_preserves_outside_witness:
  "valid_slice (''hello world'' @ ''XY'') \<lparr>base = 0, len = 11, cap = 11\<rparr>
   \<and> valid_slice (''hello world'' @ ''XY'') \<lparr>base = 11, len = 2, cap = 2\<rparr>
   \<and> (\<exists>mem' buf'.
          replace 3 (''hello world'' @ ''XY'') \<lparr>base = 0, len = 11, cap = 11\<rparr> 0 1
            \<lparr>base = 11, len = 2, cap = 2\<rparr> = Inr (mem', buf')
          \<and> contents mem' buf' = ''XYello world''
          \<and> drop 2 (contents mem' buf') = drop 1 ''hello world''
          \<and> length (contents mem' buf') = 12)
   \<and> (\<exists>mem' buf'.
          replace 3 (''hello world'' @ ''XY'') \<lparr>base = 0, len = 11, cap = 11\<rparr> 0 5
            \<lparr>base = 11, len = 2, cap = 2\<rparr> = Inr (mem', buf')
          \<and> contents mem' buf' = ''XY world''
          \<and> drop 2 (contents mem' buf') = drop 5 ''hello world''
          \<and> length (contents mem' buf') = 8)"
proof -
  let ?M = "''hello world'' @ ''XY''"
  let ?B = "\<lparr>base = 0, len = 11, cap = 11\<rparr>"
  let ?W = "\<lparr>base = 11, len = 2, cap = 2\<rparr>"
  have v: "valid_slice ?M ?B" "valid_slice ?M ?W" by (simp_all add: valid_slice_def)
  have old: "contents ''hello worldXY'' ?B = ''hello world''" by (simp add: contents_def)
  from replace_preserves_outside [OF v, of 0 1 3] obtain m1 b1 where
    g: "replace 3 ?M ?B 0 1 ?W = Inr (m1, b1)"
       "drop (nat 0 + len ?W) (contents m1 b1) = drop (nat 1) (contents ?M ?B)"
       "length (contents m1 b1) = len ?B - (nat 1 - nat 0) + len ?W"
    by auto
  have g': "contents m1 b1 = ''XYello world''"
    using g(1) by (auto simp add: replace_defs)
  from replace_preserves_outside [OF v, of 0 5 3] obtain m2 b2 where
    h: "replace 3 ?M ?B 0 5 ?W = Inr (m2, b2)"
       "drop (nat 0 + len ?W) (contents m2 b2) = drop (nat 5) (contents ?M ?B)"
       "length (contents m2 b2) = len ?B - (nat 5 - nat 0) + len ?W"
    by auto
  have h': "contents m2 b2 = ''XY world''"
    using h(1) by (auto simp add: replace_defs)
  have "drop 2 (contents m1 b1) = drop 1 ''hello world''" "length (contents m1 b1) = 12"
    using g(2,3) by (simp_all add: old numeral_2_eq_2)
  moreover have "drop 2 (contents m2 b2) = drop 5 ''hello world''" "length (contents m2 b2) = 8"
    using h(2,3) by (simp_all add: old numeral_2_eq_2)
  ultimately show ?thesis using v g(1) g' h(1) h' by blast
qed

text \<open>
  Claim C5. For every buffer and every range with \<open>0 \<le> start \<le> end \<le> len(buf)\<close>, the call
  \<open>replace(buf, start, end, buf[start:end])\<close> returns the slice it was given and leaves
  the memory as it was: the buffer is unchanged byte for byte. (The same holds of the
  contents when the replacement is a copy of the range held elsewhere: lemma
  \<open>replace_with_copy_of_range\<close>.)
\<close>

theorem replace_with_itself:
  assumes "valid_slice mem buf"
    and "0 \<le> start" and "start \<le> end" and "end \<le> int (len buf)"
    and "reslice buf start end = Inr what"
  shows "replace spare mem buf start end what = Inr (mem, buf)"
proof -
  define s where "s = nat start"
  define e where "e = nat end"
  have se: "s \<le> e" and eL: "e \<le> len buf" using assms by (simp_all add: s_def e_def)
  have st: "start = int s" and en: "end = int e" using assms by (simp_all add: s_def e_def)
  have b: "len buf \<le> cap buf" "base buf + cap buf \<le> length mem"
    using assms(1) by (simp_all add: valid_slice_def)
  have what: "what = \<lparr>base = base buf + s, len = e - s, cap = cap buf - s\<rparr>"
    using assms(5) se eL b by (simp add: reslice_def st en nat_diff_distrib' split: if_splits)
  define tail where "tail = \<lparr>base = base buf + s + (e - s), len = 0, cap = cap buf - s - (e - s)\<rparr>"
  define src where "src = \<lparr>base = base buf + e, len = len buf - e, cap = cap buf - e\<rparr>"
  define dst' where "dst' = \<lparr>base = base buf + s, len = len buf - s, cap = cap buf - s\<rparr>"
  have tl: "reslice_from what (end - start) = Inr tail"
    using se eL b by (simp add: reslice_from_def reslice_def what st en tail_def
          nat_diff_distrib' flip: of_nat_diff)
  have ap: "go_append spare mem buf tail = (mem, buf)"
    using b by (simp add: go_append_def tail_def contents_def mem_write_def)
  have "start + int (len what) = end" using se by (simp add: what st en)
  then have r1: "reslice_from buf (start + int (len what)) = Inr src"
    using se eL b by (simp add: reslice_from_def reslice_def en src_def)
  have r2: "reslice_from buf end = Inr src"
    using se eL b by (simp add: reslice_from_def reslice_def en src_def)
  have r3: "reslice_from buf start = Inr dst'"
    using se eL b by (simp add: reslice_from_def reslice_def st dst'_def
          nat_diff_distrib' flip: of_nat_diff)
  have c1: "go_copy mem src src = mem" by (rule go_copy_same) simp
  have c2: "go_copy mem dst' what = mem" by (rule go_copy_same) (simp add: dst'_def what)
  have "end - start \<le> int (len what)" using se by (simp add: what st en)
  then show ?thesis using tl ap r1 r2 r3 c1 c2 by (simp add: replace_def)
qed

theorem replace_with_itself_witness:
  "valid_slice ''hello world'' \<lparr>base = 0, len = 11, cap = 11\<rparr>
   \<and> reslice \<lparr>base = 0, len = 11, cap = 11\<rparr> 2 7 = Inr \<lparr>base = 2, len = 5, cap = 9\<rparr>
   \<and> replace 0 ''hello world'' \<lparr>base = 0, len = 11, cap = 11\<rparr> 2 7
         \<lparr>base = 2, len = 5, cap = 9\<rparr>
       = Inr (''hello world'', \<lparr>base = 0, len = 11, cap = 11\<rparr>)"
  using replace_with_itself [of "''hello world''" "\<lparr>base = 0, len = 11, cap = 11\<rparr>" 2 7
          "\<lparr>base = 2, len = 5, cap = 9\<rparr>" 0]
  by (simp add: valid_slice_def reslice_def)

subsection \<open>NewReporter\<close>

text \<open>
  Claim C8. For an \<open>os\<close> that is none of akaros, linux, freebsd, netbsd, fuchsia and
  windows, \<open>NewReporter\<close> returns a nil reporter and the error \<open>unknown os: os\<close>,
  whatever the other arguments are. No constructor runs: the result is the same for
  every six constructors, and the state that a constructor would change is returned as
  it was.
\<close>

theorem NewReporter_unknown_os:
  assumes "os \<notin> {''akaros'', ''linux'', ''freebsd'', ''netbsd'', ''fuchsia'', ''windows''}"
  shows "NewReporter cs os kernelSrc kernelObj symbols ignores w =
           ((None, Some (Error (''unknown os: '' @ os))), w)"
  using assms by (simp add: NewReporter_def ctors_map_def)

theorem NewReporter_unknown_os_witness:
  "\<forall>cs :: (unit, unit, nat) ctors.
     NewReporter cs ''plan9'' ''/src'' '''' () [] 0 =
       ((None, Some (Error ''unknown os: plan9'')), 0)"
proof
  fix cs :: "(unit, unit, nat) ctors"
  show "NewReporter cs ''plan9'' ''/src'' '''' () [] 0 =
          ((None, Some (Error ''unknown os: plan9'')), 0)"
    using NewReporter_unknown_os [of "''plan9''" cs "''/src''" "''''" "()" "[]" "0::nat"]
    by simp
qed

end
